theory Spec2Isabelle
  imports Complex_Main "HOL-Library.Multiset"
begin

section \<open>bertprompt: the prompt revision engine of \<^verbatim>\<open>bertprompt/lm.py\<close>\<close>

text \<open>
  A shallow embedding of \<^verbatim>\<open>Prompter.generate\<close>, \<^verbatim>\<open>Prompter.replace_single_token\<close>,
  \<^verbatim>\<open>get_partition\<close> and the helpers they use.

  Conventions of the embedding.
  \<^item> Python exceptions are values of \<open>error\<close>; a function that can raise returns
    \<open>error + 'a\<close> with \<open>Inl\<close> the exception.
  \<^item> The tokenizer and the masked language model are outside the repository. They enter
    as the fields of a \<open>backend\<close> record: the mask token, the decoded top-100
    predictions of every masked position of a sentence, the number of tokens of a
    sentence that are scored, and the perplexity of a sentence.
    The model is put in \<^verbatim>\<open>eval()\<close> mode and called under \<^verbatim>\<open>no_grad\<close>, so both are functions
    of the sentence. What the tokenizer, the model and the data loader raise themselves
    (a sentence longer than \<^verbatim>\<open>max_length\<close>, a vocabulary of fewer than 100 tokens) is
    not modelled: the backend always answers. The division of line 472 is code of the
    repository, and the \<^verbatim>\<open>ZeroDivisionError\<close> it raises for a sentence without a token to
    score is modelled.
  \<^item> Likelihoods and perplexities are Python floats; they are used only through their
    order, so they are values of an arbitrary linear order (\<open>real\<close> in the examples).
  \<^item> \<^verbatim>\<open>topk\<close>, \<^verbatim>\<open>n_revision\<close> and the blank counts are counts, modelled as \<open>nat\<close>;
    \<^verbatim>\<open>batch_size\<close> only groups the backend calls and is left out.
  \<^item> Sentences are ASCII strings. \<^verbatim>\<open>replace_single_token\<close> is modelled for a list of
    sentences (not for the single string that line 343 wraps into a list), and a
    vocabulary is a list of terms for every sentence.
\<close>

subsection \<open>Exceptions\<close>

datatype error =
    TypeError
  | AssertionError
  | IndexError
  | KeyError
  | ZeroDivisionError
  | ValueError_empty_sequence
  | ValueError_not_in_list
  | ValueError_no_valid_sentence "string list" string
  | Pattern_not_modelled

text \<open>
  \<open>ValueError_no_valid_sentence v s\<close> is the \<^verbatim>\<open>ValueError\<close> of line 414, whose message holds
  the vocabulary \<open>v\<close> and the current prompt \<open>s\<close>. \<open>ValueError_empty_sequence\<close> is what
  \<^verbatim>\<open>min\<close> and \<^verbatim>\<open>max\<close> raise on an empty sequence, \<open>ValueError_not_in_list\<close> what \<^verbatim>\<open>list.index\<close>
  raises. \<open>Pattern_not_modelled\<close> is not a Python exception: it marks a regular expression
  outside the fragment of the \<^verbatim>\<open>re\<close> syntax modelled below, about which this theory says
  nothing.
\<close>

fun mapE :: "('a \<Rightarrow> error + 'b) \<Rightarrow> 'a list \<Rightarrow> error + 'b list" where
  "mapE f [] = Inr []"
| "mapE f (x # xs) =
     (case f x of
        Inl e \<Rightarrow> Inl e
      | Inr y \<Rightarrow> (case mapE f xs of Inl e \<Rightarrow> Inl e | Inr ys \<Rightarrow> Inr (y # ys)))"

fun filterE :: "('a \<Rightarrow> error + bool) \<Rightarrow> 'a list \<Rightarrow> error + 'a list" where
  "filterE p [] = Inr []"
| "filterE p (x # xs) =
     (case p x of
        Inl e \<Rightarrow> Inl e
      | Inr b \<Rightarrow> (case filterE p xs of
                   Inl e \<Rightarrow> Inl e
                 | Inr ys \<Rightarrow> Inr (if b then x # ys else ys)))"

definition nthE :: "'a list \<Rightarrow> nat \<Rightarrow> error + 'a" where
  "nthE xs i = (if i < length xs then Inr (xs ! i) else Inl IndexError)"

definition lastE :: "'a list \<Rightarrow> error + 'a" where
  "lastE xs = (if xs = [] then Inl IndexError else Inr (last xs))"

subsection \<open>Strings\<close>

fun starts_with :: "string \<Rightarrow> string \<Rightarrow> bool" where
  "starts_with s [] = True"
| "starts_with [] (p # ps) = False"
| "starts_with (c # cs) (p # ps) = (c = p \<and> starts_with cs ps)"

text \<open>\<open>str_contains s p\<close> is Python's \<^verbatim>\<open>p in s\<close> on strings.\<close>

fun str_contains :: "string \<Rightarrow> string \<Rightarrow> bool" where
  "str_contains [] p = (p = [])"
| "str_contains (c # cs) p = (starts_with (c # cs) p \<or> str_contains cs p)"

text \<open>
  \<open>str_remove k old s\<close> is \<^verbatim>\<open>s.replace(old, '')\<close>; \<open>k\<close> counts the characters of an
  occurrence of \<open>old\<close> that are still to be dropped.
\<close>

fun str_remove :: "nat \<Rightarrow> string \<Rightarrow> string \<Rightarrow> string" where
  "str_remove k old [] = []"
| "str_remove (Suc k) old (c # cs) = str_remove k old cs"
| "str_remove 0 old (c # cs) =
     (if old \<noteq> [] \<and> starts_with (c # cs) old then str_remove (length old - 1) old cs
      else c # str_remove 0 old cs)"

text \<open>\<open>str_join sep xs\<close> is \<^verbatim>\<open>sep.join(xs)\<close>.\<close>

fun str_join :: "string \<Rightarrow> string list \<Rightarrow> string" where
  "str_join sep [] = []"
| "str_join sep [x] = x"
| "str_join sep (x # y # ys) = x @ sep @ str_join sep (y # ys)"

subsection \<open>The fragment of \<^verbatim>\<open>re\<close> the constraint checks use\<close>

text \<open>
  The vocabulary terms are interpolated into patterns without escaping, so a pattern is
  whatever the joined text parses to. The fragment modelled: ordinary characters,
  the alternation bar, a bracketed set of listed characters, and the word boundary
  \<^verbatim>\<open>\b\<close>. A pattern with any other special character is \<open>Pattern_not_modelled\<close>.
  A regular expression of the fragment is a list of alternatives, tried in order, each a
  sequence of atoms.
\<close>

datatype atom = Lit char | CharSet "char list" | WordBoundary

definition backslash :: char where
  "backslash = CHR 0x5C"

definition special_chars :: "char list" where
  "special_chars = ''.^$*+?{}()]''"

definition set_special_chars :: "char list" where
  "set_special_chars = backslash # ''^-[''"

definition add_atom :: "atom \<Rightarrow> atom list list option \<Rightarrow> atom list list option" where
  "add_atom a r = (case r of Some (b # bs) \<Rightarrow> Some ((a # b) # bs) | _ \<Rightarrow> None)"

text \<open>
  \<open>re_parse_from inset s\<close> parses \<open>s\<close>; \<open>inset = Some m\<close> inside a bracketed set whose
  members read so far are \<open>m\<close>.
\<close>

fun re_parse_from :: "char list option \<Rightarrow> string \<Rightarrow> atom list list option" where
  "re_parse_from None [] = Some [[]]"
| "re_parse_from (Some m) [] = None"
| "re_parse_from (Some m) (c # cs) =
     (if c = CHR '']'' then (if m = [] then None else add_atom (CharSet m) (re_parse_from None cs))
      else if c \<in> set set_special_chars then None
      else re_parse_from (Some (m @ [c])) cs)"
| "re_parse_from None [c] =
     (if c = CHR ''|'' then Some [[], []]
      else if c = backslash \<or> c = CHR ''['' \<or> c \<in> set special_chars then None
      else Some [[Lit c]])"
| "re_parse_from None (c # d # cs) =
     (if c = CHR ''|'' then map_option ((#) []) (re_parse_from None (d # cs))
      else if c = backslash then
        (if d = CHR ''b'' then add_atom WordBoundary (re_parse_from None cs) else None)
      else if c = CHR ''['' then re_parse_from (Some []) (d # cs)
      else if c \<in> set special_chars then None
      else add_atom (Lit c) (re_parse_from None (d # cs)))"

definition re_parse :: "string \<Rightarrow> atom list list option" where
  "re_parse pattern = re_parse_from None pattern"

text \<open>Word characters of \<^verbatim>\<open>\b\<close>, on ASCII: letters, digits and the underscore.\<close>

definition is_word_char :: "char \<Rightarrow> bool" where
  "is_word_char c =
     (let n = (of_char c :: nat)
      in (48 \<le> n \<and> n \<le> 57) \<or> (65 \<le> n \<and> n \<le> 90) \<or> n = 95 \<or> (97 \<le> n \<and> n \<le> 122))"

text \<open>
  \<open>at_boundary pw s\<close>: the position before \<open>s\<close> is a word boundary, where \<open>pw\<close> tells
  whether the character before it is a word character (\<open>False\<close> at the start).
\<close>

definition at_boundary :: "bool \<Rightarrow> string \<Rightarrow> bool" where
  "at_boundary pw s = (pw \<noteq> (case s of [] \<Rightarrow> False | c # _ \<Rightarrow> is_word_char c))"

text \<open>\<open>match_atoms as pw s\<close> is the text one alternative matches at the start of \<open>s\<close>.\<close>

fun match_atoms :: "atom list \<Rightarrow> bool \<Rightarrow> string \<Rightarrow> string option" where
  "match_atoms [] pw s = Some []"
| "match_atoms (Lit c # as) pw [] = None"
| "match_atoms (Lit c # as) pw (d # t) =
     (if d = c then map_option ((#) d) (match_atoms as (is_word_char d) t) else None)"
| "match_atoms (CharSet m # as) pw [] = None"
| "match_atoms (CharSet m # as) pw (d # t) =
     (if d \<in> set m then map_option ((#) d) (match_atoms as (is_word_char d) t) else None)"
| "match_atoms (WordBoundary # as) pw s =
     (if at_boundary pw s then match_atoms as pw s else None)"

text \<open>
  \<open>match_alt r adv pw s\<close>: the first alternative that matches at the start of \<open>s\<close> wins;
  with \<open>adv\<close> (the engine's \<^verbatim>\<open>must_advance\<close>, set after an empty match) an empty
  match is refused and the next alternative is tried.
\<close>

fun match_alt :: "atom list list \<Rightarrow> bool \<Rightarrow> bool \<Rightarrow> string \<Rightarrow> string option" where
  "match_alt [] adv pw s = None"
| "match_alt (b # bs) adv pw s =
     (case match_atoms b pw s of
        None \<Rightarrow> match_alt bs adv pw s
      | Some m \<Rightarrow> if adv \<and> m = [] then match_alt bs adv pw s else Some m)"

text \<open>
  \<^verbatim>\<open>re.findall\<close> of CPython 3.7 and later: the leftmost match, then the search resumes
  where it ended; after an empty match the next match at the same position must be
  non-empty. \<open>findall_from r k pw s\<close> scans \<open>s\<close>, whose first \<open>k\<close> characters belong to
  the match just reported.
\<close>

fun findall_from :: "atom list list \<Rightarrow> nat \<Rightarrow> bool \<Rightarrow> string \<Rightarrow> string list" where
  "findall_from r (Suc k) pw [] = []"
| "findall_from r (Suc k) pw (c # t) = findall_from r k (is_word_char c) t"
| "findall_from r 0 pw [] =
     (case match_alt r False pw [] of None \<Rightarrow> [] | Some m \<Rightarrow> [m])"
| "findall_from r 0 pw (c # t) =
     (case match_alt r False pw (c # t) of
        None \<Rightarrow> findall_from r 0 (is_word_char c) t
      | Some m \<Rightarrow>
          (if m = [] then
             (case match_alt r True pw (c # t) of
                None \<Rightarrow> [] # findall_from r 0 (is_word_char c) t
              | Some m' \<Rightarrow> [] # m' # findall_from r (length m' - 1) (is_word_char c) t)
           else m # findall_from r (length m - 1) (is_word_char c) t))"

definition re_findall :: "string \<Rightarrow> string \<Rightarrow> error + string list" where
  "re_findall pattern s =
     (case re_parse pattern of
        None \<Rightarrow> Inl Pattern_not_modelled
      | Some r \<Rightarrow> Inr (findall_from r 0 False s))"

subsection \<open>The constraint checks\<close>

text \<open>\<^verbatim>\<open>check_vocab\<close> (lines 332-337). \<^verbatim>\<open>list(set(vocab_in))\<close> is used through its length only.\<close>

definition check_vocab :: "string \<Rightarrow> string list \<Rightarrow> error + bool" where
  "check_vocab sentence vocab =
     (case re_findall (str_join ''|'' vocab) sentence of
        Inl e \<Rightarrow> Inl e
      | Inr vocab_in \<Rightarrow>
          (let vocab_in_unique = remdups vocab_in
           in Inr (length vocab_in_unique = length vocab_in \<and> length vocab_in = length vocab)))"

text \<open>
  The pattern of one term in \<^verbatim>\<open>decode_topk\<close>: the term itself when subwords are allowed
  (line 385), the term between two \<^verbatim>\<open>\b\<close> otherwise (line 388).
\<close>

definition term_pattern :: "bool \<Rightarrow> string \<Rightarrow> string" where
  "term_pattern allow_subword x =
     (if allow_subword then x else [backslash, CHR ''b''] @ x @ [backslash, CHR ''b''])"

text \<open>
  \<^verbatim>\<open>all(map(lambda x: len(re.findall(..., decoded_no_mask)), v))\<close>: \<^verbatim>\<open>all\<close> stops at the
  first term without a match.
\<close>

fun all_found :: "bool \<Rightarrow> string list \<Rightarrow> string \<Rightarrow> error + bool" where
  "all_found allow_subword [] s = Inr True"
| "all_found allow_subword (x # xs) s =
     (case re_findall (term_pattern allow_subword x) s of
        Inl e \<Rightarrow> Inl e
      | Inr ms \<Rightarrow> if length ms = 0 then Inr False else all_found allow_subword xs s)"

text \<open>
  The test of lines 381-394 on a decoded sentence, for the vocabulary \<open>v\<close> of the
  candidate: \<open>Inr True\<close> when \<^verbatim>\<open>decode_topk\<close> keeps the sentence.
\<close>

definition admissible :: "string \<Rightarrow> bool \<Rightarrow> string list \<Rightarrow> string \<Rightarrow> error + bool" where
  "admissible mtoken allow_subword v decoded =
     (let decoded_no_mask = str_remove 0 mtoken decoded
      in case all_found allow_subword v decoded_no_mask of
           Inl e \<Rightarrow> Inl e
         | Inr found \<Rightarrow> if \<not> found then Inr False else check_vocab decoded_no_mask v)"

text \<open>
  A plain term has no character that is special in a pattern: as a pattern it matches
  its own text and nothing else.
\<close>

definition plain_char :: "char \<Rightarrow> bool" where
  "plain_char c \<longleftrightarrow>
     c \<notin> set special_chars \<and> c \<noteq> CHR ''|'' \<and> c \<noteq> backslash \<and> c \<noteq> CHR ''[''"

definition plain_term :: "string \<Rightarrow> bool" where
  "plain_term t \<longleftrightarrow> t \<noteq> [] \<and> list_all plain_char t"

text \<open>
  The strict rule in the words of the specification, section 4.2, for comparison with
  \<open>admissible\<close>: every term occurs as a whole-word match exactly once, and the whole-word
  occurrences of all terms together are as many as the vocabulary has terms.
\<close>

definition spec_strict_admissible :: "string list \<Rightarrow> string \<Rightarrow> error + bool" where
  "spec_strict_admissible v s =
     (case mapE (\<lambda>t. re_findall (term_pattern False t) s) v of
        Inl e \<Rightarrow> Inl e
      | Inr occ \<Rightarrow> Inr (list_all (\<lambda>ms. length ms = 1) occ \<and> length (concat occ) = length v))"

subsection \<open>The scoring backend\<close>

text \<open>
  \<open>predictions b s\<close> lists, for every masked position of every encoding of the sentence
  \<open>s\<close> (in the order of lines 370 and 398), the top predictions of the model at that
  position in rank order, each as the sentence \<^verbatim>\<open>cleanup_decode\<close> returns for it and its
  likelihood. \<open>scored_tokens b s\<close> is the number of encodings line 452 makes for \<open>s\<close>, one
  for each of its tokens other than the mask token, and \<open>perplexity b s\<close> is the exponential
  of the mean of their losses, which line 472 returns for \<open>s\<close> when there is at least one.
  \<open>set_order b xs\<close> is the order in which Python iterates over \<^verbatim>\<open>set(xs)\<close>.
\<close>

record ('l, 's) backend =
  mask_token :: string
  predictions :: "string \<Rightarrow> (string \<times> 'l) list list"
  scored_tokens :: "string \<Rightarrow> nat"
  perplexity :: "string \<Rightarrow> 's"
  set_order :: "string list \<Rightarrow> string list"

text \<open>
  \<^verbatim>\<open>get_perplexity\<close> (lines 442-472). Line 472 divides the summed losses of a sentence by
  the number of its encodings, so a sentence without one raises \<^verbatim>\<open>ZeroDivisionError\<close>.
\<close>

definition get_perplexity :: "('l, 's) backend \<Rightarrow> string list \<Rightarrow> error + 's list" where
  "get_perplexity b sentences =
     mapE (\<lambda>s. if scored_tokens b s = 0 then Inl ZeroDivisionError else Inr (perplexity b s))
       sentences"

text \<open>A list is true in a condition when it is neither \<^verbatim>\<open>None\<close> nor empty.\<close>

definition truthy :: "'a list option \<Rightarrow> bool" where
  "truthy l = (case l of None \<Rightarrow> False | Some xs \<Rightarrow> xs \<noteq> [])"

text \<open>\<^verbatim>\<open>vocab_to_keep[partition_n]\<close>.\<close>

definition vocab_at :: "string list list option \<Rightarrow> nat \<Rightarrow> error + string list" where
  "vocab_at vocab_to_keep n =
     (case vocab_to_keep of None \<Rightarrow> Inl TypeError | Some vs \<Rightarrow> nthE vs n)"

subsection \<open>The single-token proposer\<close>

text \<open>
  \<^verbatim>\<open>decode_topk\<close> (lines 375-396) on the \<open>k\<close>-th prediction of one masked position:
  \<open>Inr None\<close> when the prediction is filtered out.
\<close>

definition decode_topk ::
  "('l, 's) backend \<Rightarrow> string list list option \<Rightarrow> nat \<Rightarrow> bool \<Rightarrow> (string \<times> 'l) list \<Rightarrow> nat
     \<Rightarrow> error + (string \<times> 'l) option" where
  "decode_topk b vocab_to_keep partition_n allow_subword slot k =
     (case nthE slot k of
        Inl e \<Rightarrow> Inl e
      | Inr (decoded, likelihood) \<Rightarrow>
          if truthy vocab_to_keep then
            (case vocab_at vocab_to_keep partition_n of
               Inl e \<Rightarrow> Inl e
             | Inr v \<Rightarrow>
                 (case admissible (mask_token b) allow_subword v decoded of
                    Inl e \<Rightarrow> Inl e
                  | Inr ok \<Rightarrow> Inr (if ok then Some (decoded, likelihood) else None)))
          else Inr (Some (decoded, likelihood)))"

text \<open>\<^verbatim>\<open>process_single_pair\<close> (lines 368-402) for the sentence \<open>sentence\<close> of index \<open>partition_n\<close>.\<close>

definition process_single_pair ::
  "('l, 's) backend \<Rightarrow> string list list option \<Rightarrow> nat \<Rightarrow> string \<Rightarrow> nat \<Rightarrow> bool
     \<Rightarrow> error + (string \<times> 'l) list" where
  "process_single_pair b vocab_to_keep partition_n sentence topk' allow_subword =
     (case mapE (\<lambda>slot.
             case mapE (decode_topk b vocab_to_keep partition_n allow_subword slot) [0..<topk'] of
               Inl e \<Rightarrow> Inl e
             | Inr ds \<Rightarrow> Inr (List.map_filter id ds))
           (predictions b sentence) of
        Inl e \<Rightarrow> Inl e
      | Inr dss \<Rightarrow> Inr (concat dss))"

definition topk_per_position :: nat where
  "topk_per_position = 100"

text \<open>
  The fallback ladder (lines 404-415) over a \<^verbatim>\<open>process_single_pair\<close> closure \<open>psp\<close>. The
  result holds the warnings logged (the first entry of the shortlist and the vocabulary)
  and the shortlist or the exception raised.
\<close>

definition ladder ::
  "(nat \<Rightarrow> bool \<Rightarrow> error + (string \<times> 'l) list) \<Rightarrow> nat \<Rightarrow> string list list option \<Rightarrow> nat
     \<Rightarrow> string \<Rightarrow> ((string \<times> 'l) \<times> string list) list \<times> (error + (string \<times> 'l) list)" where
  "ladder psp topk vocab_to_keep partition_n sentence =
     (case psp topk False of
        Inl e \<Rightarrow> ([], Inl e)
      | Inr e1 \<Rightarrow>
     (case (if length e1 = 0 \<and> topk_per_position > topk
            then psp topk_per_position False else Inr e1) of
        Inl e \<Rightarrow> ([], Inl e)
      | Inr e2 \<Rightarrow>
     (case (if length e2 = 0 then psp topk_per_position True else Inr e2) of
        Inl e \<Rightarrow> ([], Inl e)
      | Inr e3 \<Rightarrow>
          if length e2 = 0 \<and> length e3 \<noteq> 0 \<and> vocab_to_keep \<noteq> None then
            (case vocab_at vocab_to_keep partition_n of
               Inl e \<Rightarrow> ([], Inl e)
             | Inr v \<Rightarrow> ([(hd e3, v)], Inr e3))
          else if length e3 = 0 then
            (case vocab_at vocab_to_keep partition_n of
               Inl e \<Rightarrow> ([], Inl e)
             | Inr v \<Rightarrow> ([], Inl (ValueError_no_valid_sentence v sentence)))
          else ([], Inr e3))))"

text \<open>\<^verbatim>\<open>max(xs, key=key)\<close>: the first element whose key is greatest.\<close>

fun max_from :: "('a \<Rightarrow> 'k::linorder) \<Rightarrow> 'a \<Rightarrow> 'a list \<Rightarrow> 'a" where
  "max_from key m [] = m"
| "max_from key m (x # xs) = max_from key (if key m < key x then x else m) xs"

definition py_max :: "('a \<Rightarrow> 'k::linorder) \<Rightarrow> 'a list \<Rightarrow> error + 'a" where
  "py_max key xs = (case xs of [] \<Rightarrow> Inl ValueError_empty_sequence | x # r \<Rightarrow> Inr (max_from key x r))"

text \<open>
  \<^verbatim>\<open>sorted(xs, key=key, reverse=True)\<close>: descending, and stable (elements with equal keys
  keep their order).
\<close>

definition sorted_reverse :: "('a \<Rightarrow> 'k::linorder) \<Rightarrow> 'a list \<Rightarrow> 'a list" where
  "sorted_reverse key xs = rev (sort_key key (rev xs))"

text \<open>Lines 417-421: one pair per decoded sentence, the most likely one, most likely first.\<close>

definition dedup ::
  "('l::linorder, 's) backend \<Rightarrow> (string \<times> 'l) list \<Rightarrow> error + (string \<times> 'l) list" where
  "dedup b topk_edit =
     (case mapE (\<lambda>d. py_max snd (filter (\<lambda>x. fst x = d) topk_edit))
             (set_order b (map fst topk_edit)) of
        Inl e \<Rightarrow> Inl e
      | Inr u \<Rightarrow> Inr (sorted_reverse snd u))"

text \<open>Line 422: \<^verbatim>\<open>list(zip(*topk_edit))[0][:min(topk, len(topk_edit))]\<close>.\<close>

definition shortlist :: "nat \<Rightarrow> (string \<times> 'l) list \<Rightarrow> error + string list" where
  "shortlist topk topk_edit =
     (if topk_edit = [] then Inl IndexError
      else Inr (take (min topk (length topk_edit)) (map fst topk_edit)))"

subsection \<open>The partition of nested lists\<close>

text \<open>\<^verbatim>\<open>xs[s:e]\<close> for indices that are not negative.\<close>

definition py_slice :: "'a list \<Rightarrow> nat \<Rightarrow> nat \<Rightarrow> 'a list" where
  "py_slice xs s e = take (e - s) (drop s xs)"

text \<open>Class \<^verbatim>\<open>Partition\<close> (lines 40-47); \<^verbatim>\<open>pool_map\<close> is \<open>map\<close> run by a process pool.\<close>

definition Partition_init :: "'a list list \<Rightarrow> nat list" where
  "Partition_init l = map length l"

definition Partition_call :: "nat list \<Rightarrow> nat \<Rightarrow> nat \<times> nat" where
  "Partition_call len x = (sum_list (take x len), sum_list (take (x + 1) len))"

definition get_partition :: "'a list list \<Rightarrow> (nat \<times> nat) list" where
  "get_partition l = map (Partition_call (Partition_init l)) [0..<length l]"

text \<open>Line 427: \<^verbatim>\<open>[list_ppl[s:e] for s, e in partition]\<close>.\<close>

definition regroup :: "'b list \<Rightarrow> (nat \<times> nat) list \<Rightarrow> 'b list list" where
  "regroup flat part = map (\<lambda>(s, e). py_slice flat s e) part"

subsection \<open>Perplexity re-ranking\<close>

fun min_from :: "'a::linorder \<Rightarrow> 'a list \<Rightarrow> 'a" where
  "min_from m [] = m"
| "min_from m (x # xs) = min_from (if x < m then x else m) xs"

definition py_min :: "'a::linorder list \<Rightarrow> error + 'a" where
  "py_min xs = (case xs of [] \<Rightarrow> Inl ValueError_empty_sequence | x # r \<Rightarrow> Inr (min_from x r))"

text \<open>\<^verbatim>\<open>xs.index(v)\<close>: the first index that holds \<open>v\<close>.\<close>

fun py_index :: "'a list \<Rightarrow> 'a \<Rightarrow> error + nat" where
  "py_index [] v = Inl ValueError_not_in_list"
| "py_index (x # xs) v =
     (if x = v then Inr 0 else (case py_index xs v of Inl e \<Rightarrow> Inl e | Inr i \<Rightarrow> Inr (Suc i)))"

text \<open>The body of the loop of lines 430-432, for one candidate.\<close>

definition rerank :: "string list \<Rightarrow> 's::linorder list \<Rightarrow> error + (string \<times> 's)" where
  "rerank sent ppl =
     (case py_min ppl of
        Inl e \<Rightarrow> Inl e
      | Inr m \<Rightarrow>
          (case py_index ppl m of
             Inl e \<Rightarrow> Inl e
           | Inr i \<Rightarrow> (case nthE sent i of Inl e \<Rightarrow> Inl e | Inr best \<Rightarrow> Inr (best, m))))"

subsection \<open>\<^verbatim>\<open>Prompter.replace_single_token\<close>\<close>

text \<open>The shortlist of the candidate of index \<open>partition_n\<close> (the body of the loop of line 366).\<close>

definition greedy_filling_at ::
  "('l::linorder, 's) backend \<Rightarrow> string list \<Rightarrow> string list list option \<Rightarrow> nat \<Rightarrow> nat
     \<Rightarrow> error + string list" where
  "greedy_filling_at b seed_sentences vocab_to_keep topk partition_n =
     (let sentence = seed_sentences ! partition_n
      in case snd (ladder (process_single_pair b vocab_to_keep partition_n sentence)
                     topk vocab_to_keep partition_n sentence) of
           Inl e \<Rightarrow> Inl e
         | Inr topk_edit \<Rightarrow>
             (case dedup b topk_edit of Inl e \<Rightarrow> Inl e | Inr d \<Rightarrow> shortlist topk d))"

definition replace_single_token ::
  "('l::linorder, 's::linorder) backend \<Rightarrow> string list \<Rightarrow> string list list option \<Rightarrow> nat
     \<Rightarrow> error + (string list \<times> 's list)" where
  "replace_single_token b seed_sentences vocab_to_keep topk =
     (if truthy vocab_to_keep \<and> length seed_sentences \<noteq> length (the vocab_to_keep)
      then Inl AssertionError
      else
        (case mapE (greedy_filling_at b seed_sentences vocab_to_keep topk)
                [0..<length seed_sentences] of
           Inl e \<Rightarrow> Inl e
         | Inr greedy_filling \<Rightarrow>
             (let part = get_partition greedy_filling
              in case get_perplexity b (concat greedy_filling) of
                   Inl e \<Rightarrow> Inl e
                 | Inr ppls \<Rightarrow>
                     (let list_ppl = regroup ppls part
                      in case mapE (\<lambda>(sent, ppl). rerank sent ppl) (zip greedy_filling list_ppl) of
                           Inl e \<Rightarrow> Inl e
                         | Inr best \<Rightarrow> Inr (map fst best, map snd best)))))"

subsection \<open>\<^verbatim>\<open>Prompter.generate\<close>\<close>

text \<open>
  The arguments \<^verbatim>\<open>word_pairs\<close> and \<^verbatim>\<open>seed_sentences\<close>: \<^verbatim>\<open>None\<close>, a list, or the single
  pair and the single sentence that lines 252 and 245 wrap into a list.
\<close>

datatype py_pairs = PairsNone | PairList "string list list" | SinglePair "string list"

datatype py_seeds = SeedsNone | SeedList "string list" | SeedStr string

text \<open>
  The messages of \<^verbatim>\<open>logging.info\<close> that precede every call of \<^verbatim>\<open>replace_single_token\<close>:
  line 265 with its step, line 283 with its step and \<^verbatim>\<open>n_revision\<close>.
\<close>

datatype event = Replace_mask_step nat | Revision_step nat nat

text \<open>The result: \<^verbatim>\<open>output_dict\<close>, from a key to the edit history and the score history.\<close>

type_synonym 's output_map = "string \<rightharpoonup> (string list \<times> 's list)"

text \<open>The variables of the revision loop (lines 278-309); \<open>i\<close> is passed beside them.\<close>

record 's rev_state =
  seed_sentences :: "string list"
  edit :: "string list list"
  edit_ppl :: "'s list list"
  data_index :: "nat list"
  vocab_to_keep :: "string list list option"
  output_dict :: "'s output_map"

text \<open>\<^verbatim>\<open>pair_to_seed\<close> (lines 198-214).\<close>

definition pair_to_seed ::
  "('l, 's) backend \<Rightarrow> nat \<Rightarrow> nat \<Rightarrow> nat \<Rightarrow> string list \<Rightarrow> error + string" where
  "pair_to_seed b n_blank n_blank_b n_blank_e word_pair =
     (if length word_pair \<noteq> 2 then Inl AssertionError
      else
        (let m = mask_token b; h = word_pair ! 0; t = word_pair ! 1
         in Inr (str_join '' ''
                  (replicate n_blank_b m @ [h] @ replicate n_blank m @ [t] @
                   replicate n_blank_e m))))"

text \<open>\<^verbatim>\<open>list(zip(*xss))\<close>: the columns of \<open>xss\<close>, as many as its shortest row has entries.\<close>

definition zip_star :: "'a list list \<Rightarrow> 'a list list" where
  "zip_star xss =
     (case xss of
        [] \<Rightarrow> []
      | xs # r \<Rightarrow> map (\<lambda>i. map (\<lambda>ys. ys ! i) xss) [0..<min_from (length xs) (map length r)])"

text \<open>\<^verbatim>\<open>data_key[k]\<close>; the keys of \<^verbatim>\<open>data_key\<close> are the positions of the input.\<close>

definition key_at :: "string list \<Rightarrow> nat \<Rightarrow> error + string" where
  "key_at data_key k = (if k < length data_key then Inr (data_key ! k) else Inl KeyError)"

text \<open>The entry of \<^verbatim>\<open>output_dict\<close> for the candidate at position \<open>n\<close> (lines 289 and 311).\<close>

definition entry_at ::
  "string list \<Rightarrow> 's rev_state \<Rightarrow> nat \<Rightarrow> error + (string \<times> (string list \<times> 's list))" where
  "entry_at data_key st n =
     (case nthE (data_index st) n of
        Inl e \<Rightarrow> Inl e
      | Inr k \<Rightarrow>
     (case key_at data_key k of
        Inl e \<Rightarrow> Inl e
      | Inr key \<Rightarrow>
     (case nthE (edit st) n of
        Inl e \<Rightarrow> Inl e
      | Inr h \<Rightarrow>
     (case nthE (edit_ppl st) n of
        Inl e \<Rightarrow> Inl e
      | Inr p \<Rightarrow> Inr (key, (h, p))))))"

text \<open>\<^verbatim>\<open>d.update(entries)\<close>: a later entry with the same key wins.\<close>

definition dict_update :: "('k \<rightharpoonup> 'v) \<Rightarrow> ('k \<times> 'v) list \<Rightarrow> ('k \<rightharpoonup> 'v)" where
  "dict_update d entries = fold (\<lambda>(k, v) m. m(k \<mapsto> v)) entries d"

text \<open>
  Lines 288-301: what one round does with the result \<open>(new_sentences, ppl)\<close> of
  \<^verbatim>\<open>replace_single_token\<close>.
\<close>

definition revise ::
  "string list \<Rightarrow> 's::linorder rev_state \<Rightarrow> string list \<Rightarrow> 's list \<Rightarrow> error + 's rev_state" where
  "revise data_key st new_sentences ppl =
     (let n = length new_sentences in
      case filterE (\<lambda>x. case nthE (edit st) x of
                           Inl e \<Rightarrow> Inl e
                         | Inr h \<Rightarrow> (case lastE h of
                                      Inl e \<Rightarrow> Inl e
                                    | Inr l \<Rightarrow> Inr (new_sentences ! x = l))) [0..<n] of
        Inl e \<Rightarrow> Inl e
      | Inr index_fixed \<Rightarrow>
     (case mapE (entry_at data_key st) index_fixed of
        Inl e \<Rightarrow> Inl e
      | Inr entries \<Rightarrow>
     (case filterE (\<lambda>x. case nthE ppl x of
                           Inl e \<Rightarrow> Inl e
                         | Inr p \<Rightarrow> (case nthE (edit_ppl st) x of
                                      Inl e \<Rightarrow> Inl e
                                    | Inr h \<Rightarrow> (case lastE h of
                                                 Inl e \<Rightarrow> Inl e
                                               | Inr l \<Rightarrow> Inr (p < l)))) [0..<n] of
        Inl e \<Rightarrow> Inl e
      | Inr index_unfixed \<Rightarrow>
     (case mapE (nthE (data_index st)) index_unfixed of
        Inl e \<Rightarrow> Inl e
      | Inr data_index' \<Rightarrow>
     (case (if truthy (vocab_to_keep st)
            then (case mapE (nthE (the (vocab_to_keep st))) index_unfixed of
                    Inl e \<Rightarrow> Inl e
                  | Inr v \<Rightarrow> Inr (Some v))
            else Inr (vocab_to_keep st)) of
        Inl e \<Rightarrow> Inl e
      | Inr vocab_to_keep' \<Rightarrow>
          Inr \<lparr>seed_sentences = map (\<lambda>x. new_sentences ! x) index_unfixed,
               edit = map (\<lambda>x. edit st ! x @ [new_sentences ! x]) index_unfixed,
               edit_ppl = map (\<lambda>x. edit_ppl st ! x @ [ppl ! x]) index_unfixed,
               data_index = data_index',
               vocab_to_keep = vocab_to_keep',
               output_dict = dict_update (output_dict st) entries\<rparr>)))))"

text \<open>
  The loop of lines 282-309, from the value \<open>i\<close> of the counter. It returns the steps
  logged, one for every round, and the state at the \<^verbatim>\<open>break\<close> or the exception.
\<close>

function revision_loop ::
  "('l::linorder, 's::linorder) backend \<Rightarrow> string list \<Rightarrow> nat \<Rightarrow> nat \<Rightarrow> nat \<Rightarrow> 's rev_state
     \<Rightarrow> event list \<times> (error + 's rev_state)" where
  "revision_loop b data_key topk n_revision i st =
     (case replace_single_token b (seed_sentences st) (vocab_to_keep st) topk of
        Inl e \<Rightarrow> ([Revision_step (i + 1) n_revision], Inl e)
      | Inr (new_sentences, ppl) \<Rightarrow>
     (case revise data_key st new_sentences ppl of
        Inl e \<Rightarrow> ([Revision_step (i + 1) n_revision], Inl e)
      | Inr st' \<Rightarrow>
          if length (seed_sentences st') = 0 then ([Revision_step (i + 1) n_revision], Inr st')
          else if i > n_revision then ([Revision_step (i + 1) n_revision], Inr st')
          else
            (case revision_loop b data_key topk n_revision (i + 1) st' of
               (steps, r) \<Rightarrow> (Revision_step (i + 1) n_revision # steps, r))))"
  by pat_completeness auto
termination
  by (relation "measure (\<lambda>(b, data_key, topk, n_revision, i, st). Suc n_revision - i)") auto

text \<open>Line 311: the candidates still active when the loop ends are written to the result.\<close>

definition finish :: "string list \<Rightarrow> 's rev_state \<Rightarrow> error + 's output_map" where
  "finish data_key st =
     (case mapE (entry_at data_key st) [0..<length (data_index st)] of
        Inl e \<Rightarrow> Inl e
      | Inr entries \<Rightarrow> Inr (dict_update (output_dict st) entries))"

definition iterative_revision ::
  "('l::linorder, 's::linorder) backend \<Rightarrow> string list \<Rightarrow> nat \<Rightarrow> nat \<Rightarrow> 's rev_state
     \<Rightarrow> event list \<times> (error + 's output_map)" where
  "iterative_revision b data_key topk n_revision st =
     (case revision_loop b data_key topk n_revision 0 st of
        (steps, Inl e) \<Rightarrow> (steps, Inl e)
      | (steps, Inr st') \<Rightarrow> (steps, finish data_key st'))"

text \<open>
  The loop of lines 260-269, which fills the masks of the seeds one at a time. Nothing
  bounds it when the backend keeps returning sentences with a mask, so it is a partial
  function: \<open>None\<close> when it does not return.
\<close>

partial_function (option) replace_mask ::
  "('l::linorder, 's::linorder) backend \<Rightarrow> string list list \<Rightarrow> nat \<Rightarrow> string list
     \<Rightarrow> string list list \<Rightarrow> 's list list \<Rightarrow> event list
     \<Rightarrow> (event list \<times> (error + (string list \<times> string list list \<times> 's list list))) option" where
  "replace_mask b word_pairs topk seeds edit0 edit_ppl0 steps =
     (if list_ex (\<lambda>x. \<not> str_contains x (mask_token b)) seeds then
        (if list_all (\<lambda>i. \<not> str_contains i (mask_token b)) seeds
         then Some (steps, Inr (seeds, edit0, edit_ppl0))
         else Some (steps, Inl AssertionError))
      else
        (case replace_single_token b seeds (Some word_pairs) topk of
           Inl e \<Rightarrow> Some (steps @ [Replace_mask_step (1 + length edit_ppl0)], Inl e)
         | Inr (seeds', ppl) \<Rightarrow>
             replace_mask b word_pairs topk seeds' (edit0 @ [seeds']) (edit_ppl0 @ [ppl])
               (steps @ [Replace_mask_step (1 + length edit_ppl0)])))"

text \<open>
  \<^verbatim>\<open>generate\<close> (lines 216-313). The calls of \<^verbatim>\<open>print\<close> write to the terminal and the
  call of \<^verbatim>\<open>input\<close> of line 276 waits for a line of it; they are left out, but for
  \<^verbatim>\<open>len(word_pairs)\<close> of line 240, which raises on \<^verbatim>\<open>None\<close>.
\<close>

definition generate ::
  "('l::linorder, 's::linorder) backend \<Rightarrow> py_pairs \<Rightarrow> py_seeds \<Rightarrow> string list list option
     \<Rightarrow> nat \<Rightarrow> nat \<Rightarrow> nat \<Rightarrow> nat \<Rightarrow> nat \<Rightarrow> (event list \<times> (error + 's output_map)) option" where
  "generate b word_pairs seeds vocab n_revision topk n_blank n_blank_b n_blank_e =
     (case word_pairs of
        PairsNone \<Rightarrow> Some ([], Inl TypeError)
      | _ \<Rightarrow>
     (let pairs_given = (case word_pairs of PairList ps \<Rightarrow> ps \<noteq> [] | SinglePair p \<Rightarrow> p \<noteq> [] | _ \<Rightarrow> False);
          seeds_given = (case seeds of SeedList l \<Rightarrow> l \<noteq> [] | SeedStr s \<Rightarrow> s \<noteq> [] | _ \<Rightarrow> False)
      in
      if seeds_given then
        (if pairs_given then Some ([], Inl AssertionError)
         else
           (let l = (case seeds of SeedList l \<Rightarrow> l | SeedStr s \<Rightarrow> [s] | _ \<Rightarrow> [])
            in Some (iterative_revision b l topk n_revision
                 \<lparr>seed_sentences = l, edit = map (\<lambda>s. [s]) l,
                  edit_ppl = replicate (length l) [], data_index = [0..<length l],
                  vocab_to_keep = vocab, output_dict = Map.empty\<rparr>)))
      else if \<not> pairs_given then Some ([], Inl AssertionError)
      else
        (let ps = (case word_pairs of PairList ps \<Rightarrow> ps | SinglePair p \<Rightarrow> [p] | _ \<Rightarrow> [])
         in case mapE (pair_to_seed b n_blank n_blank_b n_blank_e) ps of
              Inl e \<Rightarrow> Some ([], Inl e)
            | Inr l \<Rightarrow>
                (case replace_mask b ps topk l [l] [] [] of
                   None \<Rightarrow> None
                 | Some (steps, Inl e) \<Rightarrow> Some (steps, Inl e)
                 | Some (steps, Inr (l', edit0, edit_ppl0)) \<Rightarrow>
                     (case iterative_revision b (map (str_join ''||'') ps) topk n_revision
                             \<lparr>seed_sentences = l', edit = zip_star edit0,
                              edit_ppl = zip_star edit_ppl0, data_index = [0..<length ps],
                              vocab_to_keep = (if vocab = None then Some ps else vocab),
                              output_dict = Map.empty\<rparr> of
                        (steps', r) \<Rightarrow> Some (steps @ steps', r))))))"

declare replace_mask.simps [code]

subsection \<open>The invariant of the histories\<close>

text \<open>
  \<open>histories_ok\<close>: in every position that both lists have, the edit history is one
  longer than the score history. \<open>output_ok\<close>: the same for every entry of the result.
\<close>

definition histories_ok :: "'s rev_state \<Rightarrow> bool" where
  "histories_ok st \<longleftrightarrow>
     (\<forall>n. n < length (edit st) \<and> n < length (edit_ppl st) \<longrightarrow>
        length (edit st ! n) = length (edit_ppl st ! n) + 1)"

definition output_ok :: "'s output_map \<Rightarrow> bool" where
  "output_ok out \<longleftrightarrow> (\<forall>key h p. out key = Some (h, p) \<longrightarrow> length h = length p + 1)"

subsection \<open>The state of a round\<close>

text \<open>
  \<open>candidate_key data_key st x\<close> is \<^verbatim>\<open>data_key[data_index[x]]\<close>, the key of the candidate at
  position \<open>x\<close> of the active lists; \<open>active_keys\<close> are the keys of all active candidates.
\<close>

definition candidate_key :: "string list \<Rightarrow> 's rev_state \<Rightarrow> nat \<Rightarrow> string" where
  "candidate_key data_key st x = data_key ! (data_index st ! x)"

definition active_keys :: "string list \<Rightarrow> 's rev_state \<Rightarrow> string set" where
  "active_keys data_key st = (\<lambda>k. data_key ! k) ` set (data_index st)"

text \<open>
  \<open>round_ready\<close>: the parallel lists have one entry for every active sentence; every
  active candidate has a last snapshot and a last score, the score being the perplexity
  of the snapshot (both come from one call of \<^verbatim>\<open>replace_single_token\<close>); the keys of the
  active candidates are distinct and none has been written to \<^verbatim>\<open>output_dict\<close>.
\<close>

definition round_ready :: "('l, 's) backend \<Rightarrow> string list \<Rightarrow> 's rev_state \<Rightarrow> bool" where
  "round_ready b data_key st \<longleftrightarrow>
     length (edit st) = length (seed_sentences st) \<and>
     length (edit_ppl st) = length (seed_sentences st) \<and>
     length (data_index st) = length (seed_sentences st) \<and>
     (\<forall>x<length (seed_sentences st).
        edit st ! x \<noteq> [] \<and> edit_ppl st ! x \<noteq> [] \<and>
        last (edit_ppl st ! x) = perplexity b (last (edit st ! x)) \<and>
        data_index st ! x < length data_key) \<and>
     distinct (map (\<lambda>k. data_key ! k) (data_index st)) \<and>
     (\<forall>k\<in>set (data_index st). output_dict st (data_key ! k) = None)"

text \<open>The index lists of lines 288 and 292.\<close>

definition index_fixed_of :: "'s rev_state \<Rightarrow> string list \<Rightarrow> nat list" where
  "index_fixed_of st new_sentences =
     filter (\<lambda>x. new_sentences ! x = last (edit st ! x)) [0..<length new_sentences]"

definition index_unfixed_of :: "'s::linorder rev_state \<Rightarrow> string list \<Rightarrow> 's list \<Rightarrow> nat list" where
  "index_unfixed_of st new_sentences ppl =
     filter (\<lambda>x. ppl ! x < last (edit_ppl st ! x)) [0..<length new_sentences]"

text \<open>
  The invariant of the loop that fills the masks, for \<open>n\<close> candidates: every row of
  \<^verbatim>\<open>edit\<close> and of \<^verbatim>\<open>edit_ppl\<close> has \<open>n\<close> entries, the last row of \<^verbatim>\<open>edit\<close> is the
  current list of sentences, and the last row of \<^verbatim>\<open>edit_ppl\<close>, when there is one, holds
  their perplexities.
\<close>

definition mask_invariant ::
  "('l, 's) backend \<Rightarrow> nat \<Rightarrow> string list \<Rightarrow> string list list \<Rightarrow> 's list list \<Rightarrow> bool" where
  "mask_invariant b n seeds edit0 edit_ppl0 \<longleftrightarrow>
     length seeds = n \<and> edit0 \<noteq> [] \<and> last edit0 = seeds \<and>
     (\<forall>r\<in>set edit0. length r = n) \<and> (\<forall>r\<in>set edit_ppl0. length r = n) \<and>
     (edit_ppl0 \<noteq> [] \<longrightarrow> (\<forall>x<n. last edit_ppl0 ! x = perplexity b (seeds ! x)))"

text \<open>
  \<open>run_ends_with b data_key topk n_revision i st out\<close>: \<open>out\<close> is the map the run returns
  when the state after a round is \<open>st\<close>: the loop ends there, or it goes on from the
  counter \<open>i\<close> and ends later; either way line 311 then writes the active candidates.
\<close>

definition run_ends_with ::
  "('l::linorder, 's::linorder) backend \<Rightarrow> string list \<Rightarrow> nat \<Rightarrow> nat \<Rightarrow> nat \<Rightarrow> 's rev_state
     \<Rightarrow> 's output_map \<Rightarrow> bool" where
  "run_ends_with b data_key topk n_revision i st out \<longleftrightarrow>
     finish data_key st = Inr out \<or>
     (\<exists>steps st'. revision_loop b data_key topk n_revision i st = (steps, Inr st') \<and>
        finish data_key st' = Inr out)"

subsection \<open>A backend that never stabilises\<close>

text \<open>
  A backend for the word pair \<open>a\<close>, \<open>b\<close>: it fills the mask of the seed with \<open>x\<close>, and
  from then on proposes the current sentence with one more word appended; a longer
  sentence has a lower perplexity. Its best sentence changes and strictly improves in
  every round.
\<close>

definition never_stable :: "(real, real) backend" where
  "never_stable =
     \<lparr>mask_token = ''[MASK]'',
      predictions = (\<lambda>s. if s = ''a [MASK] b'' then [[(''a x b'', 1)]] else [[(s @ '' x'', 1)]]),
      scored_tokens = length,
      perplexity = (\<lambda>s. 1 / real (length s)),
      set_order = remdups\<rparr>"

subsection \<open>A round with three candidates\<close>

text \<open>
  Three candidates after their mask was filled with \<open>x\<close>, and a backend that proposes the
  same sentence for the first, a sentence of lower perplexity for the second and one of
  higher perplexity for the third.
\<close>

definition three_way :: "(real, real) backend" where
  "three_way =
     \<lparr>mask_token = ''[MASK]'',
      predictions = (\<lambda>s. if s = ''a x b'' then [[(''a x b'', 1)]]
                         else if s = ''c x d'' then [[(''c y d'', 1)]]
                         else [[(''e y f'', 1)]]),
      scored_tokens = length,
      perplexity = (\<lambda>s. if s = ''c y d'' then 1 else if s = ''e y f'' then 3 else 2),
      set_order = remdups\<rparr>"

definition three_candidates :: "real rev_state" where
  "three_candidates =
     \<lparr>seed_sentences = [''a x b'', ''c x d'', ''e x f''],
      edit = [[''a [MASK] b'', ''a x b''], [''c [MASK] d'', ''c x d''], [''e [MASK] f'', ''e x f'']],
      edit_ppl = [[2], [2], [2]],
      data_index = [0, 1, 2],
      vocab_to_keep = Some [[''a'', ''b''], [''c'', ''d''], [''e'', ''f'']],
      output_dict = Map.empty\<rparr>"

section \<open>Properties\<close>

subsection \<open>The partition map and regrouping\<close>

lemma get_partition_Cons:
  "get_partition (g # gs) =
     (0, length g) # map (\<lambda>(s, e). (length g + s, length g + e)) (get_partition gs)"
proof -
  have "[0..<Suc (length gs)] = 0 # map Suc [0..<length gs]"
    by (simp add: upt_conv_Cons map_Suc_upt del: upt_Suc)
  then show ?thesis
    by (simp add: get_partition_def Partition_init_def Partition_call_def del: upt_Suc)
qed

lemma regroup_flat:
  "length flat = length (concat gs) \<Longrightarrow>
     concat (regroup flat (get_partition gs)) = flat \<and>
     map length (regroup flat (get_partition gs)) = map length gs"
proof (induction gs arbitrary: flat)
  case Nil
  then show ?case by (simp add: regroup_def get_partition_def)
next
  case (Cons g gs)
  have step: "regroup flat (get_partition (g # gs)) =
        take (length g) flat # regroup (drop (length g) flat) (get_partition gs)"
    by (simp add: get_partition_Cons regroup_def py_slice_def split_def comp_def add.commute)
  have "length (drop (length g) flat) = length (concat gs)"
    using Cons.prems by simp
  from Cons.IH [OF this] show ?case
    using Cons.prems by (simp add: step)
qed

lemma regroup_concat:
  "regroup (map f (concat gs)) (get_partition gs) = map (map f) gs"
proof (induction gs)
  case Nil
  then show ?case by (simp add: regroup_def get_partition_def)
next
  case (Cons g gs)
  have "regroup (map f (concat (g # gs))) (get_partition (g # gs)) =
        map f g # regroup (map f (concat gs)) (get_partition gs)"
    by (simp add: get_partition_Cons regroup_def py_slice_def split_def comp_def
        flip: drop_drop)
  with Cons show ?case by simp
qed

lemma get_partition_nth:
  "i < length gs \<Longrightarrow>
     get_partition gs ! i =
       (sum_list (map length (take i gs)), sum_list (map length (take i gs)) + length (gs ! i))"
  by (simp add: get_partition_def Partition_init_def Partition_call_def take_Suc_conv_app_nth
      take_map del: upt_Suc)

text \<open>
  Claim C6. For every list of groups \<open>gs\<close>, whatever their lengths: regrouping the
  flattened list by \<open>get_partition gs\<close> gives \<open>gs\<close> back; regrouping the per-item results
  \<open>map f (concat gs)\<close> gives the results group by group; regrouping any flat list
  of as many results as there are items cuts it into consecutive pieces of the groups'
  lengths, nothing dropped, repeated or moved; and the \<open>i\<close>-th range starts at the sum of
  the lengths of the groups before \<open>i\<close> and ends the length of group \<open>i\<close> later.
\<close>

theorem partition_roundtrip:
  "regroup (concat gs) (get_partition gs) = gs \<and>
   regroup (map f (concat gs)) (get_partition gs) = map (map f) gs \<and>
   (length flat = length (concat gs) \<longrightarrow>
      concat (regroup flat (get_partition gs)) = flat \<and>
      map length (regroup flat (get_partition gs)) = map length gs) \<and>
   length (get_partition gs) = length gs \<and>
   (\<forall>i<length gs. get_partition gs ! i =
      (sum_list (map length (take i gs)), sum_list (map length (take i gs)) + length (gs ! i)))"
proof -
  have "regroup (map id (concat gs)) (get_partition gs) = map (map id) gs"
    by (rule regroup_concat)
  then have "regroup (concat gs) (get_partition gs) = gs" by simp
  moreover have "length (get_partition gs) = length gs"
    by (simp add: get_partition_def)
  ultimately show ?thesis
    using regroup_concat [of f gs] regroup_flat [of flat gs] get_partition_nth [of _ gs]
    by blast
qed

theorem partition_roundtrip_witness:
  "regroup (concat [[1, 2], [], [3::nat]]) (get_partition [[1, 2], [], [3::nat]]) =
     [[1, 2], [], [3]] \<and>
   regroup (map Suc (concat [[1, 2], [], [3]])) (get_partition [[1, 2], [], [3::nat]]) =
     [[2, 3], [], [4]] \<and>
   length [True, False, True] = length (concat [[1, 2], [], [3::nat]]) \<and>
   regroup [True, False, True] (get_partition [[1, 2], [], [3::nat]]) =
     [[True, False], [], [True]] \<and>
   get_partition [[1, 2], [], [3::nat]] = [(0, 2), (2, 2), (2, 3)]"
proof -
  have p: "get_partition [[1, 2], [], [3::nat]] = [(0, 2), (2, 2), (2, 3)]"
    by (simp add: get_partition_def Partition_init_def Partition_call_def upt_rec)
  have r: "regroup [True, False, True] [(0, 2), (2, 2), (2, 3)] = [[True, False], [], [True]]"
    by (simp add: regroup_def py_slice_def)
  show ?thesis
    using partition_roundtrip [of "[[1, 2], [], [3::nat]]" Suc "[True, False, True]"] p r
    by simp
qed

subsection \<open>Perplexity re-ranking\<close>

lemma min_from_Min: "min_from m xs = Min (insert m (set xs))"
proof (induction xs arbitrary: m)
  case Nil
  then show ?case by simp
next
  case (Cons x xs)
  have "Min (insert (if x < m then x else m) (set xs)) = Min (insert m (insert x (set xs)))"
  proof (cases "set xs = {}")
    case True
    then show ?thesis by (auto simp: min_def)
  next
    case False
    then show ?thesis by (auto simp: min_def)
  qed
  with Cons show ?case by simp
qed

lemma py_min_Min: "ppl \<noteq> [] \<Longrightarrow> py_min ppl = Inr (Min (set ppl))"
  by (cases ppl) (simp_all add: py_min_def min_from_Min)

lemma py_index_first:
  "v \<in> set xs \<Longrightarrow>
     \<exists>i<length xs. py_index xs v = Inr i \<and> xs ! i = v \<and> (\<forall>j<i. xs ! j \<noteq> v)"
proof (induction xs)
  case Nil
  then show ?case by simp
next
  case (Cons x xs)
  show ?case
  proof (cases "x = v")
    case True
    then show ?thesis by auto
  next
    case False
    with Cons.prems have "v \<in> set xs" by simp
    from Cons.IH [OF this] obtain i where i: "i < length xs" "py_index xs v = Inr i"
      "xs ! i = v" "\<forall>j<i. xs ! j \<noteq> v" by blast
    have "\<forall>j<Suc i. (x # xs) ! j \<noteq> v"
      using False i(4) by (auto simp: nth_Cons split: nat.splits)
    with i False show ?thesis
      by (intro exI [of _ "Suc i"]) simp
  qed
qed

lemma rerank_result:
  assumes "ppl \<noteq> []" and "length sent = length ppl"
  shows "\<exists>i<length ppl. rerank sent ppl = Inr (sent ! i, ppl ! i) \<and>
           ppl ! i = Min (set ppl) \<and> (\<forall>j<i. ppl ! j \<noteq> Min (set ppl))"
proof -
  let ?m = "Min (set ppl)"
  have m: "py_min ppl = Inr ?m" using assms(1) by (rule py_min_Min)
  have "?m \<in> set ppl" using assms(1) by (intro Min_in) auto
  from py_index_first [OF this] obtain i where i: "i < length ppl" "py_index ppl ?m = Inr i"
    "ppl ! i = ?m" "\<forall>j<i. ppl ! j \<noteq> ?m" by blast
  have "rerank sent ppl = Inr (sent ! i, ppl ! i)"
    using m i assms(2) by (simp add: rerank_def nthE_def)
  with i show ?thesis by blast
qed

text \<open>
  Claim C7. For a non-empty shortlist \<open>sent\<close> with scores \<open>ppl\<close>, \<open>rerank\<close> returns the
  sentence and the score at a position \<open>i\<close> whose score is the minimum of the scores: no
  score is lower, and every score before \<open>i\<close> is strictly higher, so among several
  sentences with the minimum score the first in shortlist order is returned.
\<close>

theorem rerank_first_minimum:
  assumes "ppl \<noteq> []" and "length sent = length ppl"
  shows "\<exists>i<length ppl. rerank sent ppl = Inr (sent ! i, ppl ! i) \<and>
           ppl ! i = Min (set ppl) \<and>
           (\<forall>j<length ppl. ppl ! i \<le> ppl ! j) \<and>
           (\<forall>j<i. ppl ! i < ppl ! j)"
proof -
  from rerank_result [OF assms] obtain i where i: "i < length ppl"
    "rerank sent ppl = Inr (sent ! i, ppl ! i)" "ppl ! i = Min (set ppl)"
    "\<forall>j<i. ppl ! j \<noteq> Min (set ppl)" by blast
  have le: "\<forall>j<length ppl. ppl ! i \<le> ppl ! j"
    using i(3) by simp
  have "\<forall>j<i. ppl ! i < ppl ! j"
  proof (intro allI impI)
    fix j assume "j < i"
    then have "ppl ! j \<noteq> Min (set ppl)" "j < length ppl" using i by auto
    then show "ppl ! i < ppl ! j" using le i(3) by (metis order_le_less)
  qed
  with i le show ?thesis by blast
qed

theorem rerank_first_minimum_witness:
  "[3, 1, 2, 1::real] \<noteq> [] \<and>
   length [''a'', ''b'', ''c'', ''d''] = length [3, 1, 2, 1::real] \<and>
   rerank [''a'', ''b'', ''c'', ''d''] [3, 1, 2, 1::real] = Inr (''b'', 1)"
  using rerank_first_minimum [of "[3, 1, 2, 1::real]" "[''a'', ''b'', ''c'', ''d'']"]
  by (simp add: rerank_def py_min_def nthE_def)

subsection \<open>Deduplication of the shortlist\<close>

lemma mapE_Inr: "(\<And>x. x \<in> set xs \<Longrightarrow> f x = Inr (g x)) \<Longrightarrow> mapE f xs = Inr (map g xs)"
  by (induction xs) simp_all

lemma max_from_props:
  "max_from key m xs \<in> set (m # xs) \<and> (\<forall>y\<in>set (m # xs). key y \<le> key (max_from key m xs))"
proof (induction xs arbitrary: m)
  case Nil
  then show ?case by simp
next
  case (Cons x xs)
  from Cons [of "if key m < key x then x else m"] show ?case
    by (auto split: if_splits)
qed

lemma py_max_props:
  "xs \<noteq> [] \<Longrightarrow>
     \<exists>y. py_max key xs = Inr y \<and> y \<in> set xs \<and> (\<forall>z\<in>set xs. key z \<le> key y)"
  using max_from_props [of key "hd xs" "tl xs"]
  by (cases xs) (simp_all add: py_max_def)

lemma sorted_reverse_mset: "mset (sorted_reverse key xs) = mset xs"
  by (simp add: sorted_reverse_def)

lemma sorted_reverse_set: "set (sorted_reverse key xs) = set xs"
  by (simp add: sorted_reverse_def)

lemma sorted_reverse_descending: "sorted (rev (map key (sorted_reverse key xs)))"
  by (simp add: sorted_reverse_def rev_map)

lemma sorted_reverse_distinct_map:
  "distinct (map f xs) \<Longrightarrow> distinct (map f (sorted_reverse key xs))"
proof -
  assume "distinct (map f xs)"
  moreover have "mset (map f (sorted_reverse key xs)) = mset (map f xs)"
    by (simp add: sorted_reverse_mset)
  ultimately show ?thesis
    by (metis mset_eq_imp_distinct_iff)
qed

lemma dedup_result:
  fixes xs :: "(string \<times> 'l::linorder) list"
  assumes "set (set_order b (map fst xs)) = set (map fst xs)"
  shows "\<exists>u. dedup b xs = Inr (sorted_reverse snd u) \<and>
           map fst u = set_order b (map fst xs) \<and>
           (\<forall>(s, l)\<in>set u. (s, l) \<in> set xs \<and> (\<forall>l'. (s, l') \<in> set xs \<longrightarrow> l' \<le> l))"
proof -
  let ?ds = "set_order b (map fst xs)"
  define g where "g = (\<lambda>d. case py_max snd (filter (\<lambda>x. fst x = d) xs) of
                              Inr y \<Rightarrow> y | Inl e \<Rightarrow> (d, snd (hd xs)))"
  have g: "py_max snd (filter (\<lambda>x. fst x = d) xs) = Inr (g d) \<and> g d \<in> set xs \<and>
           fst (g d) = d \<and> (\<forall>l'. (d, l') \<in> set xs \<longrightarrow> l' \<le> snd (g d))"
    if "d \<in> set ?ds" for d
  proof -
    let ?fl = "filter (\<lambda>x. fst x = d) xs"
    have "d \<in> fst ` set xs" using that assms by simp
    then have "?fl \<noteq> []" by (auto simp: filter_empty_conv)
    from py_max_props [OF this, of snd] obtain y where y: "py_max snd ?fl = Inr y"
      "y \<in> set ?fl" "\<forall>z\<in>set ?fl. snd z \<le> snd y" by blast
    then have "g d = y" by (simp add: g_def)
    with y show ?thesis by force
  qed
  have "mapE (\<lambda>d. py_max snd (filter (\<lambda>x. fst x = d) xs)) ?ds = Inr (map g ?ds)"
    by (rule mapE_Inr) (use g in blast)
  then have 1: "dedup b xs = Inr (sorted_reverse snd (map g ?ds))"
    by (simp add: dedup_def)
  have 2: "map fst (map g ?ds) = ?ds"
    using g by (simp add: map_idI)
  have 3: "\<forall>(s, l)\<in>set (map g ?ds). (s, l) \<in> set xs \<and> (\<forall>l'. (s, l') \<in> set xs \<longrightarrow> l' \<le> l)"
  proof (rule ballI)
    fix p assume "p \<in> set (map g ?ds)"
    then obtain d where d: "d \<in> set ?ds" "p = g d" by auto
    obtain s l where p: "p = (s, l)" by (cases p)
    from g [OF d(1)] d(2) p
    have "(s, l) \<in> set xs \<and> (\<forall>l'. (s, l') \<in> set xs \<longrightarrow> l' \<le> l)"
      by (metis fst_conv snd_conv)
    then show "case p of (s, l) \<Rightarrow> (s, l) \<in> set xs \<and> (\<forall>l'. (s, l') \<in> set xs \<longrightarrow> l' \<le> l)"
      using p by simp
  qed
  from 1 2 3 show ?thesis by blast
qed

lemma two_element_orders:
  assumes "distinct ys" and "set ys = {a, b}" and "a \<noteq> b"
  shows "ys = [a, b] \<or> ys = [b, a]"
proof -
  have "length ys = 2"
    using assms by (metis card_2_iff distinct_card)
  then obtain u v where ys: "ys = [u, v]"
    by (metis (no_types, opaque_lifting) One_nat_def Suc_1 length_0_conv length_Suc_conv)
  with assms show ?thesis by auto
qed

lemma dedup_example:
  fixes r :: "(real, 's) backend"
  assumes "distinct (set_order r [''a fox ran'', ''a fox ran'', ''a fox sat''])"
    and "set (set_order r [''a fox ran'', ''a fox ran'', ''a fox sat'']) =
           set [''a fox ran'', ''a fox ran'', ''a fox sat'']"
  shows "dedup r [(''a fox ran'', 0.9), (''a fox ran'', 0.5), (''a fox sat'', 0.7)] =
           Inr [(''a fox ran'', 0.9), (''a fox sat'', 0.7)]"
proof -
  let ?o = "set_order r [''a fox ran'', ''a fox ran'', ''a fox sat'']"
  have "?o = [''a fox ran'', ''a fox sat''] \<or> ?o = [''a fox sat'', ''a fox ran'']"
    by (rule two_element_orders) (use assms in auto)
  then show ?thesis
    by (auto simp: dedup_def py_max_def sorted_reverse_def)
qed

text \<open>
  Claim C5. Let Python iterate over the set of the decoded sentences of \<open>xs\<close> in any
  order (each sentence once). Then \<open>dedup\<close> returns a list \<open>d\<close> that holds every decoded
  sentence of \<open>xs\<close> exactly once, each with the greatest likelihood it has in \<open>xs\<close>, in
  descending order of likelihood; and the shortlist taken from \<open>d\<close> is its first \<open>topk\<close>
  sentences, at most \<open>topk\<close> of them. For the pairs of the example the result is
  \<open>[(''a fox ran'', 0.9), (''a fox sat'', 0.7)]\<close>.
\<close>

theorem dedup_keeps_most_likely:
  fixes b :: "('l::linorder, 's) backend" and r :: "(real, 't) backend"
  assumes "distinct (set_order b (map fst xs))"
    and "set (set_order b (map fst xs)) = set (map fst xs)"
  shows "(\<exists>d. dedup b xs = Inr d \<and>
           distinct (map fst d) \<and>
           set (map fst d) = set (map fst xs) \<and>
           (\<forall>(s, l)\<in>set d. (s, l) \<in> set xs \<and> (\<forall>l'. (s, l') \<in> set xs \<longrightarrow> l' \<le> l)) \<and>
           sorted (rev (map snd d)) \<and>
           (xs \<noteq> [] \<longrightarrow> shortlist topk d = Inr (take topk (map fst d))) \<and>
           length (take topk (map fst d)) \<le> topk) \<and>
         (distinct (set_order r [''a fox ran'', ''a fox ran'', ''a fox sat'']) \<and>
          set (set_order r [''a fox ran'', ''a fox ran'', ''a fox sat'']) =
            set [''a fox ran'', ''a fox ran'', ''a fox sat''] \<longrightarrow>
          dedup r [(''a fox ran'', 0.9), (''a fox ran'', 0.5), (''a fox sat'', 0.7)] =
            Inr [(''a fox ran'', 0.9), (''a fox sat'', 0.7)])"
proof -
  from dedup_result [OF assms(2)] obtain u where u: "dedup b xs = Inr (sorted_reverse snd u)"
    "map fst u = set_order b (map fst xs)"
    "\<forall>(s, l)\<in>set u. (s, l) \<in> set xs \<and> (\<forall>l'. (s, l') \<in> set xs \<longrightarrow> l' \<le> l)" by blast
  let ?d = "sorted_reverse snd u"
  have 2: "distinct (map fst ?d)"
    by (rule sorted_reverse_distinct_map) (simp only: u(2) assms(1))
  have 3: "set (map fst ?d) = set (map fst xs)"
  proof -
    have "set (map fst ?d) = set (map fst u)"
      by (simp only: set_map sorted_reverse_set)
    also have "\<dots> = set (set_order b (map fst xs))" by (simp only: u(2))
    also have "\<dots> = set (map fst xs)" by (rule assms(2))
    finally show ?thesis .
  qed
  have 4: "\<forall>(s, l)\<in>set ?d. (s, l) \<in> set xs \<and> (\<forall>l'. (s, l') \<in> set xs \<longrightarrow> l' \<le> l)"
    using u(3) by (simp only: sorted_reverse_set)
  have 5: "sorted (rev (map snd ?d))" by (rule sorted_reverse_descending)
  have 6: "xs \<noteq> [] \<longrightarrow> shortlist topk ?d = Inr (take topk (map fst ?d))"
  proof
    assume "xs \<noteq> []"
    then have "set (map fst ?d) \<noteq> {}" using 3 by simp
    then have "?d \<noteq> []" by auto
    moreover have "take (min topk (length ?d)) (map fst ?d) = take topk (map fst ?d)"
      by (simp add: min_def)
    ultimately show "shortlist topk ?d = Inr (take topk (map fst ?d))"
      by (simp add: shortlist_def)
  qed
  have 7: "length (take topk (map fst ?d)) \<le> topk" by simp
  have "\<exists>d. dedup b xs = Inr d \<and>
           distinct (map fst d) \<and>
           set (map fst d) = set (map fst xs) \<and>
           (\<forall>(s, l)\<in>set d. (s, l) \<in> set xs \<and> (\<forall>l'. (s, l') \<in> set xs \<longrightarrow> l' \<le> l)) \<and>
           sorted (rev (map snd d)) \<and>
           (xs \<noteq> [] \<longrightarrow> shortlist topk d = Inr (take topk (map fst d))) \<and>
           length (take topk (map fst d)) \<le> topk"
    using u(1) 2 3 4 5 6 7 by blast
  then show ?thesis using dedup_example [of r] by blast
qed

theorem dedup_keeps_most_likely_witness:
  "distinct (remdups (map fst [(''a fox ran'', 0.9::real), (''a fox ran'', 0.5), (''a fox sat'', 0.7)])) \<and>
   dedup \<lparr>mask_token = ''[MASK]'', predictions = (\<lambda>s. []), scored_tokens = length,
         perplexity = (\<lambda>s. 0::real),
         set_order = remdups\<rparr>
     [(''a fox ran'', 0.9::real), (''a fox ran'', 0.5), (''a fox sat'', 0.7)] =
       Inr [(''a fox ran'', 0.9), (''a fox sat'', 0.7)] \<and>
   shortlist 1 [(''a fox ran'', 0.9::real), (''a fox sat'', 0.7)] = Inr [''a fox ran'']"
  using dedup_keeps_most_likely [where b = "\<lparr>mask_token = ''[MASK]'', predictions = (\<lambda>s. []),
      scored_tokens = length, perplexity = (\<lambda>s. 0::real), set_order = remdups\<rparr>"
      and xs = "[(''a fox ran'', 0.9::real), (''a fox ran'', 0.5), (''a fox sat'', 0.7)]"
      and r = "\<lparr>mask_token = ''[MASK]'', predictions = (\<lambda>s. []),
      scored_tokens = length, perplexity = (\<lambda>s. 0::real), set_order = remdups\<rparr>" and topk = 1]
  by (simp add: dedup_def py_max_def sorted_reverse_def shortlist_def)

subsection \<open>The constraint checks\<close>

lemmas re_eval = re_findall_def re_parse_def add_atom_def special_chars_def
  set_special_chars_def backslash_def is_word_char_def at_boundary_def term_pattern_def
  check_vocab_def admissible_def

lemma all_found_iff:
  "(\<And>t. t \<in> set v \<Longrightarrow> re_findall (term_pattern allow t) s = Inr (occ t)) \<Longrightarrow>
     all_found allow v s = Inr (\<forall>t\<in>set v. occ t \<noteq> [])"
  by (induction v) auto

lemma remdups_length_distinct: "length (remdups xs) = length xs \<longleftrightarrow> distinct xs"
  by (simp add: length_remdups_eq)

text \<open>
  Claim C2 fails on the code. The three examples of the claim come out as it says. But
  in \<open>''the cat category''\<close> the term \<open>''cat''\<close> occurs once as a whole word, which line 388
  finds, so the rule of the claim admits the sentence; \<^verbatim>\<open>check_vocab\<close> (line 333) then
  scans for the bare term, without the word boundaries of line 388, finds it a second
  time inside \<open>''category''\<close>, and the strict check rejects the sentence. The comment of
  line 391 asks that every term appear just once.
\<close>

theorem strict_check_counts_substrings:
  "admissible ''[MASK]'' False [''cat''] ''the cat sat'' = Inr True \<and>
   admissible ''[MASK]'' False [''cat''] ''the cat and cat'' = Inr False \<and>
   admissible ''[MASK]'' False [''cat''] ''the category'' = Inr False \<and>
   admissible ''[MASK]'' True [''cat''] ''the category'' = Inr True \<and>
   re_findall (term_pattern False ''cat'') ''the cat category'' = Inr [''cat''] \<and>
   spec_strict_admissible [''cat''] ''the cat category'' = Inr True \<and>
   re_findall (str_join ''|'' [''cat'']) ''the cat category'' = Inr [''cat'', ''cat''] \<and>
   check_vocab ''the cat category'' [''cat''] = Inr False \<and>
   admissible ''[MASK]'' False [''cat''] ''the cat category'' = Inr False"
  by (simp add: re_eval spec_strict_admissible_def)

lemma add_atom_map_option:
  "add_atom a (map_option ((#) b) r) = map_option ((#) (a # b)) r"
  by (cases r) (simp_all add: add_atom_def)

lemma add_atom_Some: "add_atom a (Some (b # bs)) = Some ((a # b) # bs)"
  by (simp add: add_atom_def)

lemma parse_bar: "re_parse_from None (CHR ''|'' # rest) = map_option ((#) []) (re_parse_from None rest)"
  by (cases rest) simp_all

lemma parse_plain_bar:
  "list_all plain_char t \<Longrightarrow>
     re_parse_from None (t @ CHR ''|'' # rest) =
       map_option ((#) (map Lit t)) (re_parse_from None rest)"
proof (induction t)
  case Nil
  then show ?case by (simp add: parse_bar)
next
  case (Cons c t)
  then have c: "plain_char c" and t: "list_all plain_char t" by simp_all
  obtain d u where du: "t @ CHR ''|'' # rest = d # u" by (cases "t @ CHR ''|'' # rest") auto
  have "re_parse_from None (c # d # u) = add_atom (Lit c) (re_parse_from None (d # u))"
    using c by (simp add: plain_char_def)
  with Cons.IH [OF t] du show ?case
    by (simp add: add_atom_map_option)
qed

lemma parse_plain:
  "list_all plain_char t \<Longrightarrow> re_parse_from None t = Some [map Lit t]"
proof (induction t)
  case Nil
  then show ?case by simp
next
  case (Cons c t)
  then have c: "plain_char c" and t: "list_all plain_char t" by simp_all
  show ?case
  proof (cases t)
    case Nil
    with c show ?thesis by (simp add: plain_char_def)
  next
    case (Cons d u)
    have "re_parse_from None (c # d # u) = add_atom (Lit c) (re_parse_from None (d # u))"
      using c by (simp add: plain_char_def)
    with Cons.IH [OF t] Cons show ?thesis by (simp add: add_atom_Some)
  qed
qed

lemma parse_join_plain:
  "\<forall>t\<in>set (x # v). list_all plain_char t \<Longrightarrow>
     re_parse (str_join ''|'' (x # v)) = Some (map (map Lit) (x # v))"
proof (induction v arbitrary: x)
  case Nil
  then show ?case by (simp add: re_parse_def parse_plain)
next
  case (Cons y v)
  from Cons.prems have x: "list_all plain_char x" and r: "\<forall>t\<in>set (y # v). list_all plain_char t"
    by simp_all
  have "str_join ''|'' (x # y # v) = x @ CHR ''|'' # str_join ''|'' (y # v)" by simp
  with parse_plain_bar [OF x] Cons.IH [OF r] show ?case
    by (simp add: re_parse_def)
qed

lemma match_lits:
  "match_atoms (map Lit t) pw s = (if starts_with s t then Some t else None)"
proof (induction t arbitrary: pw s)
  case Nil
  then show ?case by simp
next
  case (Cons c t)
  then show ?case by (cases s) auto
qed

lemma match_alt_lits:
  "match_alt (map (map Lit) v) adv pw s = Some m \<Longrightarrow> m \<in> set v \<and> starts_with s m"
  by (induction v) (auto simp: match_lits split: if_splits)

lemma findall_from_matches:
  "m \<in> set (findall_from r k pw s) \<Longrightarrow> \<exists>adv pw' s'. match_alt r adv pw' s' = Some m"
proof (induction r k pw s rule: findall_from.induct)
  case (1 r k pw)
  then show ?case by simp
next
  case (2 r k pw c t)
  then show ?case by simp
next
  case (3 r pw)
  then show ?case by (auto split: option.splits)
next
  case (4 r pw c t)
  show ?case
  proof (cases "match_alt r False pw (c # t)")
    case None
    with 4 show ?thesis by simp
  next
    case (Some m0)
    show ?thesis
    proof (cases "m0 = []")
      case False
      with Some 4 show ?thesis by auto
    next
      case True
      show ?thesis
      proof (cases "match_alt r True pw (c # t)")
        case None
        with True Some 4 show ?thesis by auto
      next
        case (Some m1)
        with True \<open>match_alt r False pw (c # t) = Some m0\<close> 4 show ?thesis by auto
      qed
    qed
  qed
qed

lemma findall_plain_subset:
  assumes "v \<noteq> []" and "\<forall>t\<in>set v. list_all plain_char t"
  shows "\<exists>ms. re_findall (str_join ''|'' v) s = Inr ms \<and> set ms \<subseteq> set v"
proof -
  obtain x u where v: "v = x # u" using assms(1) by (cases v) auto
  from parse_join_plain [of x u] assms(2) v
  have p: "re_parse (str_join ''|'' v) = Some (map (map Lit) v)" by simp
  then have f: "re_findall (str_join ''|'' v) s = Inr (findall_from (map (map Lit) v) 0 False s)"
    by (simp add: re_findall_def)
  have "set (findall_from (map (map Lit) v) 0 False s) \<subseteq> set v"
  proof
    fix m assume "m \<in> set (findall_from (map (map Lit) v) 0 False s)"
    from findall_from_matches [OF this] obtain adv pw' s' where
      "match_alt (map (map Lit) v) adv pw' s' = Some m" by blast
    from match_alt_lits [OF this] show "m \<in> set v" by simp
  qed
  with f show ?thesis by blast
qed

lemma exactly_once_iff:
  assumes "distinct v" and "set ms \<subseteq> set v"
  shows "distinct ms \<and> length ms = length v \<longleftrightarrow> mset ms = mset v"
proof
  assume a: "distinct ms \<and> length ms = length v"
  then have "card (set ms) = card (set v)"
    using assms(1) by (simp add: distinct_card)
  with assms(2) have "set ms = set v"
    by (simp add: card_subset_eq)
  with a assms(1) show "mset ms = mset v"
    by (simp add: set_eq_iff_mset_eq_distinct)
next
  assume "mset ms = mset v"
  then show "distinct ms \<and> length ms = length v"
    using assms(1) by (metis mset_eq_imp_distinct_iff mset_eq_length)
qed

lemma parse_plain_boundary:
  "list_all plain_char t \<Longrightarrow>
     re_parse_from None (t @ [backslash, CHR ''b'']) = Some [map Lit t @ [WordBoundary]]"
proof (induction t)
  case Nil
  then show ?case by (simp add: add_atom_def backslash_def)
next
  case (Cons c t)
  then have c: "plain_char c" and t: "list_all plain_char t" by simp_all
  obtain d u where du: "t @ [backslash, CHR ''b''] = d # u"
    by (cases "t @ [backslash, CHR ''b'']") auto
  have "re_parse_from None (c # d # u) = add_atom (Lit c) (re_parse_from None (d # u))"
    using c by (simp add: plain_char_def)
  with Cons.IH [OF t] du show ?case
    by (simp add: add_atom_Some)
qed

lemma term_pattern_modelled:
  assumes "list_all plain_char t"
  shows "\<exists>ms. re_findall (term_pattern allow t) s = Inr ms"
proof (cases allow)
  case True
  with parse_plain [OF assms] show ?thesis
    by (simp add: re_findall_def re_parse_def term_pattern_def)
next
  case False
  have "re_parse_from None (backslash # CHR ''b'' # t @ [backslash, CHR ''b'']) =
          add_atom WordBoundary (re_parse_from None (t @ [backslash, CHR ''b'']))"
    by (simp add: backslash_def)
  with parse_plain_boundary [OF assms] False show ?thesis
    by (simp add: re_findall_def re_parse_def term_pattern_def add_atom_Some)
qed

lemma plain_vocabulary_modelled:
  assumes "v \<noteq> []" and "\<forall>t\<in>set v. plain_term t"
  shows "\<exists>ms occ. re_findall (str_join ''|'' v) s = Inr ms \<and>
           (\<forall>t\<in>set v. re_findall (term_pattern allow t) s = Inr (occ t))"
proof -
  from assms(2) have p: "\<forall>t\<in>set v. list_all plain_char t" by (simp add: plain_term_def)
  from findall_plain_subset [OF assms(1) p] obtain ms where
    ms: "re_findall (str_join ''|'' v) s = Inr ms" by blast
  define occ where "occ = (\<lambda>t. case re_findall (term_pattern allow t) s of Inr x \<Rightarrow> x | Inl e \<Rightarrow> [])"
  have "\<forall>t\<in>set v. re_findall (term_pattern allow t) s = Inr (occ t)"
  proof
    fix t assume "t \<in> set v"
    with p have "list_all plain_char t" by blast
    from term_pattern_modelled [OF this, of allow s] show
      "re_findall (term_pattern allow t) s = Inr (occ t)"
      by (auto simp: occ_def)
  qed
  with ms show ?thesis by blast
qed

text \<open>
  What lines 383-394 compute. Let \<open>ms\<close> be what \<^verbatim>\<open>re.findall\<close> returns for the terms
  joined by \<^verbatim>\<open>|\<close> on the decoded sentence without its masks, and \<open>occ t\<close> the matches of
  the pattern of the term \<open>t\<close> (between word boundaries in strict mode, the bare term in
  relaxed mode). The sentence passes exactly when every term has a match, \<open>ms\<close> has no
  duplicates and \<open>ms\<close> has as many entries as the vocabulary. For a vocabulary of
  distinct plain terms, \<open>ms\<close> holds terms only, and the condition on \<open>ms\<close> says that the
  scan finds every term exactly once.
\<close>

lemma check_admits:
  assumes "re_findall (str_join ''|'' v) (str_remove 0 m s) = Inr ms"
    and "\<forall>t\<in>set v. re_findall (term_pattern allow t) (str_remove 0 m s) = Inr (occ t)"
  shows "admissible m allow v s =
           Inr ((\<forall>t\<in>set v. occ t \<noteq> []) \<and> distinct ms \<and> length ms = length v) \<and>
         (v \<noteq> [] \<and> distinct v \<and> (\<forall>t\<in>set v. plain_term t) \<longrightarrow>
            set ms \<subseteq> set v \<and>
            admissible m allow v s = Inr ((\<forall>t\<in>set v. occ t \<noteq> []) \<and> mset ms = mset v)) \<and>
         admissible ''[MASK]'' False [''cat''] ''the cat sat'' = Inr True \<and>
         admissible ''[MASK]'' False [''cat''] ''the cat and cat'' = Inr False \<and>
         admissible ''[MASK]'' False [''cat''] ''the category'' = Inr False \<and>
         admissible ''[MASK]'' True [''cat''] ''the category'' = Inr True"
proof -
  have "all_found allow v (str_remove 0 m s) = Inr (\<forall>t\<in>set v. occ t \<noteq> [])"
    by (rule all_found_iff) (use assms(2) in blast)
  then have 1: "admissible m allow v s =
           Inr ((\<forall>t\<in>set v. occ t \<noteq> []) \<and> distinct ms \<and> length ms = length v)"
    using assms(1) by (auto simp: admissible_def check_vocab_def remdups_length_distinct)
  have 2: "set ms \<subseteq> set v \<and>
            admissible m allow v s = Inr ((\<forall>t\<in>set v. occ t \<noteq> []) \<and> mset ms = mset v)"
    if "v \<noteq> [] \<and> distinct v \<and> (\<forall>t\<in>set v. plain_term t)"
  proof -
    from that have p: "\<forall>t\<in>set v. list_all plain_char t" by (simp add: plain_term_def)
    from that findall_plain_subset [OF _ p, of "str_remove 0 m s"] assms(1)
    have sub: "set ms \<subseteq> set v" by auto
    from that exactly_once_iff [OF _ sub] have
      "distinct ms \<and> length ms = length v \<longleftrightarrow> mset ms = mset v" by blast
    with 1 sub show ?thesis by simp
  qed
  have "admissible ''[MASK]'' False [''cat''] ''the cat sat'' = Inr True"
    by (simp add: re_eval)
  moreover have "admissible ''[MASK]'' False [''cat''] ''the cat and cat'' = Inr False"
    by (simp add: re_eval)
  moreover have "admissible ''[MASK]'' False [''cat''] ''the category'' = Inr False"
    by (simp add: re_eval)
  moreover have "admissible ''[MASK]'' True [''cat''] ''the category'' = Inr True"
    by (simp add: re_eval)
  ultimately show ?thesis using 1 2 by blast
qed

lemma check_admits_example:
  "re_findall (str_join ''|'' [''dog'', ''cat'']) (str_remove 0 ''[MASK]'' ''a dog [MASK] cat'') =
     Inr [''dog'', ''cat''] \<and>
   re_findall (term_pattern False ''dog'') (str_remove 0 ''[MASK]'' ''a dog [MASK] cat'') =
     Inr [''dog''] \<and>
   re_findall (term_pattern False ''cat'') (str_remove 0 ''[MASK]'' ''a dog [MASK] cat'') =
     Inr [''cat''] \<and>
   plain_term ''dog'' \<and> plain_term ''cat'' \<and>
   admissible ''[MASK]'' False [''dog'', ''cat''] ''a dog [MASK] cat'' = Inr True"
proof -
  have 1: "re_findall (str_join ''|'' [''dog'', ''cat''])
             (str_remove 0 ''[MASK]'' ''a dog [MASK] cat'') = Inr [''dog'', ''cat'']"
    by (simp add: re_eval)
  have 2: "re_findall (term_pattern False ''dog'')
             (str_remove 0 ''[MASK]'' ''a dog [MASK] cat'') = Inr [''dog'']"
    by (simp add: re_eval)
  have 3: "re_findall (term_pattern False ''cat'')
             (str_remove 0 ''[MASK]'' ''a dog [MASK] cat'') = Inr [''cat'']"
    by (simp add: re_eval)
  have 4: "plain_term ''dog''" "plain_term ''cat''"
    by (simp_all add: plain_term_def plain_char_def special_chars_def backslash_def)
  have "\<forall>t\<in>set [''dog'', ''cat'']. re_findall (term_pattern False t)
          (str_remove 0 ''[MASK]'' ''a dog [MASK] cat'') =
          Inr ((\<lambda>t. if t = ''dog'' then [''dog''] else [''cat'']) t)"
    using 2 3 by simp
  from check_admits [OF 1 this] 4 have
    "admissible ''[MASK]'' False [''dog'', ''cat''] ''a dog [MASK] cat'' =
       Inr ((\<forall>t\<in>set [''dog'', ''cat'']. (if t = ''dog'' then [''dog''] else [''cat'']) \<noteq> []) \<and>
            mset [''dog'', ''cat''] = mset [''dog'', ''cat''])"
    by simp
  with 1 2 3 4 show ?thesis by simp
qed

text \<open>
  Claim C10. A vocabulary term is read as a regular expression: \<open>''[MASK]''\<close> parses to a
  set of four characters, and the sentence \<open>''A dog''\<close>, which does not contain the
  term, passes the check in both modes. Counting over the joined alternation goes wrong
  for overlapping terms (\<open>''cat''\<close> and \<open>''category''\<close> each occur once as a whole word in
  \<open>''the category cat''\<close>, yet two matches \<open>''cat''\<close> are found and the sentence is rejected)
  and for a term with a special character (the one term \<open>''a|b''\<close> is found twice in the
  sentence \<open>''a|b''\<close>, as \<open>''a''\<close> and as \<open>''b''\<close>).
\<close>

theorem vocabulary_terms_are_patterns:
  "re_parse ''[MASK]'' = Some [[CharSet ''MASK'']] \<and>
   str_contains ''A dog'' ''[MASK]'' = False \<and>
   admissible ''[MASK]'' False [''[MASK]''] ''A dog'' = Inr True \<and>
   admissible ''[MASK]'' True [''[MASK]''] ''A dog'' = Inr True \<and>
   re_findall (str_join ''|'' [''cat'', ''category'']) ''the category cat'' =
     Inr [''cat'', ''cat''] \<and>
   admissible ''[MASK]'' False [''cat'', ''category''] ''the category cat'' = Inr False \<and>
   re_findall (str_join ''|'' [''a|b'']) ''a|b'' = Inr [''a'', ''b''] \<and>
   check_vocab ''a|b'' [''a|b''] = Inr False"
  by (simp add: re_eval)

subsection \<open>\<^verbatim>\<open>generate\<close> without word pairs\<close>

text \<open>
  Claim C9. When \<^verbatim>\<open>word_pairs\<close> is left \<^verbatim>\<open>None\<close>, \<^verbatim>\<open>generate\<close> raises \<^verbatim>\<open>TypeError\<close>
  whatever the seed sentences, the other arguments and the backend are, and no step of
  either loop has been logged: no call of \<^verbatim>\<open>replace_single_token\<close> was made.
\<close>

theorem generate_without_word_pairs:
  "generate b PairsNone seeds vocab n_revision topk n_blank n_blank_b n_blank_e =
     Some ([], Inl TypeError)"
  by (simp add: generate_def)

subsection \<open>The number of revision rounds\<close>

text \<open>
  Whatever the backend does, the loop started at \<open>i = 0\<close> logs at most
  \<open>n_revision + 2\<close> steps: the test of line 306 is \<^verbatim>\<open>i > n_revision\<close> and it is made
  after the round.
\<close>

lemma revision_loop_steps_le:
  "length (fst (revision_loop b data_key topk n_revision i st)) \<le> max 1 (Suc (Suc n_revision) - i)"
proof (induction b data_key topk n_revision i st rule: revision_loop.induct)
  case (1 b data_key topk n_revision i st)
  show ?case
  proof (cases "replace_single_token b (seed_sentences st) (vocab_to_keep st) topk")
    case (Inl e)
    then show ?thesis by (subst revision_loop.simps) simp
  next
    case (Inr r)
    obtain new_sentences ppl where r: "r = (new_sentences, ppl)" by (cases r)
    show ?thesis
    proof (cases "revise data_key st new_sentences ppl")
      case (Inl e)
      with Inr r show ?thesis by (subst revision_loop.simps) simp
    next
      case st': (Inr st')
      show ?thesis
      proof (cases "length (seed_sentences st') = 0 \<or> i > n_revision")
        case True
        with Inr r st' show ?thesis by (subst revision_loop.simps) auto
      next
        case False
        then have c: "length (seed_sentences st') \<noteq> 0" "\<not> n_revision < i" by auto
        from "1.IH" [OF Inr r [symmetric] st' c]
        have "length (fst (revision_loop b data_key topk n_revision (i + 1) st'))
                \<le> max 1 (Suc (Suc n_revision) - (i + 1))" .
        with Inr r st' c show ?thesis
          by (subst revision_loop.simps) (auto split: prod.splits)
      qed
    qed
  qed
qed

text \<open>
  Claim C1 fails on the code. With \<^verbatim>\<open>n_revision = 0\<close>, the word pair \<open>a\<close>, \<open>b\<close>, one blank
  and the backend \<open>never_stable\<close>, \<^verbatim>\<open>generate\<close> fills the mask in one step and then runs
  two rounds of the revision loop, one more than \<^verbatim>\<open>n_revision + 1\<close>; the second is
  logged as step 2 of at most 0.
\<close>

theorem revision_rounds_exceed_bound:
  "map_option fst
     (generate never_stable (PairList [[''a'', ''b'']]) SeedsNone None 0 1 1 0 0) =
   Some [Replace_mask_step 1, Revision_step 1 0, Revision_step 2 0]"
  by code_simp

subsection \<open>The fallback ladder\<close>

text \<open>
  The stages of the ladder, for a closure \<open>psp\<close> that raises nothing: the first
  shortlist is kept when it is not empty; the pool of 100 is tried under the strict check
  only when it was empty and \<^verbatim>\<open>topk\<close> is below 100; the relaxed check is tried only when
  the shortlist is still empty, and a hit is logged with the vocabulary; when nothing is
  found and the candidate has a vocabulary \<open>v\<close>, the \<^verbatim>\<open>ValueError\<close> with \<open>v\<close> and the current
  sentence is raised; when \<^verbatim>\<open>vocab_to_keep\<close> is \<^verbatim>\<open>None\<close>, building that message raises
  \<^verbatim>\<open>TypeError\<close>.
\<close>

lemma ladder_stages:
  fixes psp :: "nat \<Rightarrow> bool \<Rightarrow> error + (string \<times> 'l) list"
  assumes "psp topk False = Inr e1"
  shows "e1 \<noteq> [] \<Longrightarrow> ladder psp topk vocab n s = ([], Inr e1)"
    and "e1 = [] \<Longrightarrow> topk < topk_per_position \<Longrightarrow> psp topk_per_position False = Inr e2 \<Longrightarrow>
           e2 \<noteq> [] \<Longrightarrow> ladder psp topk vocab n s = ([], Inr e2)"
    and "e1 = [] \<Longrightarrow> (topk < topk_per_position \<Longrightarrow> psp topk_per_position False = Inr []) \<Longrightarrow>
           psp topk_per_position True = Inr e3 \<Longrightarrow> e3 \<noteq> [] \<Longrightarrow> vocab_at vocab n = Inr v \<Longrightarrow>
           ladder psp topk vocab n s = ([(hd e3, v)], Inr e3)"
    and "e1 = [] \<Longrightarrow> (topk < topk_per_position \<Longrightarrow> psp topk_per_position False = Inr []) \<Longrightarrow>
           psp topk_per_position True = Inr [] \<Longrightarrow> vocab_at vocab n = Inr v \<Longrightarrow>
           ladder psp topk vocab n s = ([], Inl (ValueError_no_valid_sentence v s))"
    and "e1 = [] \<Longrightarrow> (topk < topk_per_position \<Longrightarrow> psp topk_per_position False = Inr []) \<Longrightarrow>
           psp topk_per_position True = Inr [] \<Longrightarrow> vocab = None \<Longrightarrow>
           ladder psp topk vocab n s = ([], Inl TypeError)"
  using assms by (auto simp: ladder_def vocab_at_def split: option.splits)

lemma process_single_pair_no_predictions:
  "predictions b s = [] \<Longrightarrow> process_single_pair b vocab n s k allow = Inr []"
  by (simp add: process_single_pair_def)

text \<open>
  Claim C4 fails on the code for a candidate without a vocabulary. When
  \<^verbatim>\<open>vocab_to_keep\<close> is \<^verbatim>\<open>None\<close> and the backend has no masked position for the sentence
  (the empty sentence has no token), every stage of the ladder is empty and line 414
  raises \<^verbatim>\<open>TypeError\<close> from \<^verbatim>\<open>vocab_to_keep[partition_n]\<close>, not the \<^verbatim>\<open>ValueError\<close> that
  reports the current text.
\<close>

theorem no_vocabulary_no_prediction_TypeError:
  assumes "predictions b s = []"
  shows "ladder (process_single_pair b None 0 s) topk None 0 s = ([], Inl TypeError) \<and>
         replace_single_token b [s] None topk = Inl TypeError"
proof -
  have p: "process_single_pair b None 0 s k allow = Inr []" for k allow
    using assms by (rule process_single_pair_no_predictions)
  have l: "ladder (process_single_pair b None 0 s) topk None 0 s = ([], Inl TypeError)"
    by (simp add: ladder_def p vocab_at_def)
  then show ?thesis
    by (simp add: replace_single_token_def greedy_filling_at_def truthy_def)
qed

theorem no_vocabulary_no_prediction_TypeError_witness:
  "predictions \<lparr>mask_token = ''[MASK]'',
       predictions = (\<lambda>s. if s = [] then [] else [[(s, 1::real)]]),
       scored_tokens = length, perplexity = (\<lambda>s. 1::real), set_order = remdups\<rparr> '''' = [] \<and>
   replace_single_token \<lparr>mask_token = ''[MASK]'',
       predictions = (\<lambda>s. if s = [] then [] else [[(s, 1::real)]]),
       scored_tokens = length, perplexity = (\<lambda>s. 1::real), set_order = remdups\<rparr> [''''] None 10 = Inl TypeError"
  using no_vocabulary_no_prediction_TypeError [of "\<lparr>mask_token = ''[MASK]'',
       predictions = (\<lambda>s. if s = [] then [] else [[(s, 1::real)]]),
       scored_tokens = length, perplexity = (\<lambda>s. 1::real), set_order = remdups\<rparr>" "''''" 10]
  by simp

subsection \<open>The histories of the candidates\<close>

lemma mapE_Inr_D:
  "mapE f xs = Inr ys \<Longrightarrow> length ys = length xs \<and> (\<forall>i<length xs. f (xs ! i) = Inr (ys ! i))"
proof (induction xs arbitrary: ys)
  case Nil
  then show ?case by simp
next
  case (Cons x xs)
  from Cons.prems obtain y ys' where y: "f x = Inr y" "mapE f xs = Inr ys'" "ys = y # ys'"
    by (auto split: sum.splits)
  from Cons.IH [OF y(2)] y(1,3) show ?case
    by (auto simp: nth_Cons split: nat.splits)
qed

lemma filterE_Inr_D:
  "filterE p xs = Inr ys \<Longrightarrow>
     (\<forall>x\<in>set xs. \<exists>b. p x = Inr b) \<and> ys = filter (\<lambda>x. p x = Inr True) xs"
proof (induction xs arbitrary: ys)
  case Nil
  then show ?case by simp
next
  case (Cons x xs)
  from Cons.prems obtain b ys' where y: "p x = Inr b" "filterE p xs = Inr ys'"
    "ys = (if b then x # ys' else ys')"
    by (auto split: sum.splits)
  from Cons.IH [OF y(2)] y(1,3) show ?case by auto
qed

lemma dict_update_Some:
  "dict_update d es k = Some v \<Longrightarrow> d k = Some v \<or> (k, v) \<in> set es"
proof (induction es arbitrary: d)
  case Nil
  then show ?case by (simp add: dict_update_def)
next
  case (Cons e es)
  obtain k' v' where e: "e = (k', v')" by (cases e)
  from Cons.prems have "dict_update (d(k' \<mapsto> v')) es k = Some v"
    by (simp add: dict_update_def e)
  from Cons.IH [OF this] show ?case
    by (auto simp: e split: if_splits)
qed

lemma entry_at_D:
  "entry_at data_key st n = Inr (key, (h, p)) \<Longrightarrow>
     n < length (data_index st) \<and> data_index st ! n < length data_key \<and>
     key = data_key ! (data_index st ! n) \<and>
     n < length (edit st) \<and> h = edit st ! n \<and> n < length (edit_ppl st) \<and> p = edit_ppl st ! n"
  by (auto simp: entry_at_def nthE_def key_at_def split: sum.splits if_splits)

lemma entries_ok:
  assumes "mapE (entry_at data_key st) ns = Inr entries" and "histories_ok st"
    and "output_ok d"
  shows "output_ok (dict_update d entries)"
  unfolding output_ok_def
proof (intro allI impI)
  fix key h p
  assume "dict_update d entries key = Some (h, p)"
  then consider "d key = Some (h, p)" | "(key, (h, p)) \<in> set entries"
    using dict_update_Some by fastforce
  then show "length h = length p + 1"
  proof cases
    case 1
    with assms(3) show ?thesis by (auto simp: output_ok_def)
  next
    case 2
    then obtain i where i: "i < length entries" "entries ! i = (key, (h, p))"
      by (auto simp: in_set_conv_nth)
    from mapE_Inr_D [OF assms(1)] i
    have "entry_at data_key st (ns ! i) = Inr (key, (h, p))" by auto
    from entry_at_D [OF this] assms(2) show ?thesis
      by (auto simp: histories_ok_def)
  qed
qed

lemma revise_D:
  assumes "revise data_key st new_sentences ppl = Inr st'"
  obtains index_fixed entries index_unfixed where
    "filterE (\<lambda>x. case nthE (edit st) x of
                           Inl e \<Rightarrow> Inl e
                         | Inr h \<Rightarrow> (case lastE h of
                                      Inl e \<Rightarrow> Inl e
                                    | Inr l \<Rightarrow> Inr (new_sentences ! x = l)))
        [0..<length new_sentences] = Inr index_fixed"
    "mapE (entry_at data_key st) index_fixed = Inr entries"
    "filterE (\<lambda>x. case nthE ppl x of
                           Inl e \<Rightarrow> Inl e
                         | Inr p \<Rightarrow> (case nthE (edit_ppl st) x of
                                      Inl e \<Rightarrow> Inl e
                                    | Inr h \<Rightarrow> (case lastE h of
                                                 Inl e \<Rightarrow> Inl e
                                               | Inr l \<Rightarrow> Inr (p < l))))
        [0..<length new_sentences] = Inr index_unfixed"
    "mapE (nthE (data_index st)) index_unfixed = Inr (data_index st')"
    "seed_sentences st' = map (\<lambda>x. new_sentences ! x) index_unfixed"
    "edit st' = map (\<lambda>x. edit st ! x @ [new_sentences ! x]) index_unfixed"
    "edit_ppl st' = map (\<lambda>x. edit_ppl st ! x @ [ppl ! x]) index_unfixed"
    "output_dict st' = dict_update (output_dict st) entries"
  using assms unfolding revise_def Let_def
  by (auto split: sum.splits if_splits)

lemma revise_histories:
  assumes "revise data_key st new_sentences ppl = Inr st'"
    and "histories_ok st" and "output_ok (output_dict st)"
  shows "histories_ok st' \<and> output_ok (output_dict st')"
proof -
  from assms(1) obtain index_fixed entries index_unfixed where r:
    "filterE (\<lambda>x. case nthE (edit st) x of
                           Inl e \<Rightarrow> Inl e
                         | Inr h \<Rightarrow> (case lastE h of
                                      Inl e \<Rightarrow> Inl e
                                    | Inr l \<Rightarrow> Inr (new_sentences ! x = l)))
        [0..<length new_sentences] = Inr index_fixed"
    "mapE (entry_at data_key st) index_fixed = Inr entries"
    "filterE (\<lambda>x. case nthE ppl x of
                           Inl e \<Rightarrow> Inl e
                         | Inr p \<Rightarrow> (case nthE (edit_ppl st) x of
                                      Inl e \<Rightarrow> Inl e
                                    | Inr h \<Rightarrow> (case lastE h of
                                                 Inl e \<Rightarrow> Inl e
                                               | Inr l \<Rightarrow> Inr (p < l))))
        [0..<length new_sentences] = Inr index_unfixed"
    "edit st' = map (\<lambda>x. edit st ! x @ [new_sentences ! x]) index_unfixed"
    "edit_ppl st' = map (\<lambda>x. edit_ppl st ! x @ [ppl ! x]) index_unfixed"
    "output_dict st' = dict_update (output_dict st) entries"
    by (rule revise_D)
  have in_edit: "x < length (edit st)" if "x < length new_sentences" for x
    using filterE_Inr_D [OF r(1)] that
    by (auto simp: nthE_def split: sum.splits if_splits)
  have in_ppl: "x < length (edit_ppl st)" if "x < length new_sentences" for x
    using filterE_Inr_D [OF r(3)] that
    by (auto simp: nthE_def split: sum.splits if_splits)
  have sub: "x < length new_sentences" if "x \<in> set index_unfixed" for x
    using filterE_Inr_D [OF r(3)] that by auto
  have "histories_ok st'"
    unfolding histories_ok_def
  proof (intro allI impI)
    fix n assume "n < length (edit st') \<and> n < length (edit_ppl st')"
    then have n: "n < length index_unfixed" by (simp add: r(4))
    then have x: "index_unfixed ! n < length new_sentences" using sub by simp
    from assms(2) in_edit [OF x] in_ppl [OF x]
    have "length (edit st ! (index_unfixed ! n)) = length (edit_ppl st ! (index_unfixed ! n)) + 1"
      by (simp add: histories_ok_def)
    then show "length (edit st' ! n) = length (edit_ppl st' ! n) + 1"
      using n by (simp add: r(4,5))
  qed
  moreover have "output_ok (output_dict st')"
    unfolding r(6) using r(2) assms(2,3) by (rule entries_ok)
  ultimately show ?thesis ..
qed

lemma revision_loop_unfold:
  assumes "replace_single_token b (seed_sentences st) (vocab_to_keep st) topk =
            Inr (new_sentences, ppl)"
    and "revise data_key st new_sentences ppl = Inr st1"
  shows "revision_loop b data_key topk n_revision i st =
          (if length (seed_sentences st1) = 0 \<or> i > n_revision
           then ([Revision_step (i + 1) n_revision], Inr st1)
           else (Revision_step (i + 1) n_revision #
                   fst (revision_loop b data_key topk n_revision (i + 1) st1),
                 snd (revision_loop b data_key topk n_revision (i + 1) st1)))"
  by (subst revision_loop.simps) (simp add: assms split: prod.splits)

lemma revision_loop_Inr_D:
  assumes "revision_loop b data_key topk n_revision i st = (steps, Inr st')"
  shows "\<exists>new_sentences ppl st1.
           replace_single_token b (seed_sentences st) (vocab_to_keep st) topk =
             Inr (new_sentences, ppl) \<and>
           revise data_key st new_sentences ppl = Inr st1"
proof (cases "replace_single_token b (seed_sentences st) (vocab_to_keep st) topk")
  case (Inl e)
  with assms show ?thesis by (subst (asm) revision_loop.simps) simp
next
  case (Inr r)
  obtain new_sentences ppl where r: "r = (new_sentences, ppl)" by (cases r)
  show ?thesis
  proof (cases "revise data_key st new_sentences ppl")
    case (Inl e)
    with assms Inr r show ?thesis by (subst (asm) revision_loop.simps) simp
  next
    case st1: (Inr st1)
    with Inr r show ?thesis by blast
  qed
qed

lemma revision_loop_histories:
  "revision_loop b data_key topk n_revision i st = (steps, Inr st') \<Longrightarrow>
     histories_ok st \<Longrightarrow> output_ok (output_dict st) \<Longrightarrow>
     histories_ok st' \<and> output_ok (output_dict st')"
proof (induction b data_key topk n_revision i st arbitrary: steps rule: revision_loop.induct)
  case (1 b data_key topk n_revision i st)
  from revision_loop_Inr_D [OF "1.prems"(1)] obtain new_sentences ppl st1 where
    rst: "replace_single_token b (seed_sentences st) (vocab_to_keep st) topk =
            Inr (new_sentences, ppl)"
    and rev: "revise data_key st new_sentences ppl = Inr st1"
    by blast
  note unfold = revision_loop_unfold [OF rst rev, of n_revision i]
  from revise_histories [OF rev "1.prems"(2,3)]
  have ok1: "histories_ok st1" "output_ok (output_dict st1)" by auto
  show ?case
  proof (cases "length (seed_sentences st1) = 0 \<or> i > n_revision")
    case True
    with "1.prems"(1) unfold have "st' = st1" by simp
    with ok1 show ?thesis by simp
  next
    case False
    then have c: "length (seed_sentences st1) \<noteq> 0" "\<not> n_revision < i" by auto
    from "1.prems"(1) unfold False
    have "revision_loop b data_key topk n_revision (i + 1) st1 =
            (fst (revision_loop b data_key topk n_revision (i + 1) st1), Inr st')"
      by simp
    from "1.IH" [OF rst refl rev c this ok1] show ?thesis .
  qed
qed

lemma replace_mask_lengths_aux:
  assumes "replace_mask b word_pairs topk seeds edit0 edit_ppl0 steps = Some y"
  shows "length edit0 = Suc (length edit_ppl0) \<longrightarrow>
       (\<forall>steps' l e p. y = (steps', Inr (l, e, p)) \<longrightarrow> length e = Suc (length p))"
proof (rule replace_mask.raw_induct [where P = "\<lambda>b word_pairs topk seeds edit0 edit_ppl0 steps y.
     length edit0 = Suc (length edit_ppl0) \<longrightarrow>
       (\<forall>steps' l e p. y = (steps', Inr (l, e, p)) \<longrightarrow> length e = Suc (length p))",
     OF _ assms], goal_cases)
  case (1 rm b word_pairs topk seeds edit0 edit_ppl0 steps y)
  note IH = 1(1) and eq = 1(2)
  show ?case
  proof (cases "list_ex (\<lambda>x. \<not> str_contains x (mask_token b)) seeds")
    case True
    with eq show ?thesis
      by (cases "list_all (\<lambda>i. \<not> str_contains i (mask_token b)) seeds") auto
  next
    case False
    show ?thesis
    proof (cases "replace_single_token b seeds (Some word_pairs) topk")
      case (Inl e)
      with False eq show ?thesis by auto
    next
      case (Inr r)
      obtain seeds' ppl where r: "r = (seeds', ppl)" by (cases r)
      from False Inr r eq have
        "rm b word_pairs topk seeds' (edit0 @ [seeds']) (edit_ppl0 @ [ppl])
           (steps @ [Replace_mask_step (1 + length edit_ppl0)]) = Some y"
        by simp
      note step = IH [OF this]
      have "length (edit0 @ [seeds']) = Suc (length (edit_ppl0 @ [ppl])) \<longleftrightarrow>
            length edit0 = Suc (length edit_ppl0)" by simp
      with step show ?thesis by blast
    qed
  qed
qed

lemma finish_ok:
  assumes "finish data_key st = Inr out" and "histories_ok st" and "output_ok (output_dict st)"
  shows "output_ok out"
proof -
  from assms(1) obtain entries where
    e: "mapE (entry_at data_key st) [0..<length (data_index st)] = Inr entries"
    and o: "out = dict_update (output_dict st) entries"
    by (auto simp: finish_def split: sum.splits)
  from entries_ok [OF e assms(2,3)] o show ?thesis by simp
qed

lemma iterative_revision_ok:
  assumes "iterative_revision b data_key topk n_revision st = (steps, Inr out)"
    and "histories_ok st" and "output_ok (output_dict st)"
  shows "output_ok out"
proof -
  obtain steps0 r where l0: "revision_loop b data_key topk n_revision 0 st = (steps0, r)"
    by (cases "revision_loop b data_key topk n_revision 0 st")
  with assms(1) obtain st' where r: "r = Inr st'" and f: "finish data_key st' = Inr out"
    by (cases r) (auto simp: iterative_revision_def)
  from revision_loop_histories [OF l0 [unfolded r] assms(2,3)] f show ?thesis
    by (blast intro: finish_ok)
qed

lemma zip_star_row:
  "n < length (zip_star xss) \<Longrightarrow> length (zip_star xss ! n) = length xss"
  by (cases xss) (simp_all add: zip_star_def)

lemma generate_D:
  assumes "generate b word_pairs seeds vocab n_revision topk n_blank n_blank_b n_blank_e =
             Some (steps, Inr out)"
  shows "(\<exists>l v. iterative_revision b l topk n_revision
              \<lparr>seed_sentences = l, edit = map (\<lambda>s. [s]) l,
               edit_ppl = replicate (length l) [], data_index = [0..<length l],
               vocab_to_keep = v, output_dict = Map.empty\<rparr> = (steps, Inr out)) \<or>
         (\<exists>ps l l' edit0 edit_ppl0 steps0 steps1 v.
            replace_mask b ps topk l [l] [] [] = Some (steps0, Inr (l', edit0, edit_ppl0)) \<and>
            iterative_revision b (map (str_join ''||'') ps) topk n_revision
              \<lparr>seed_sentences = l', edit = zip_star edit0, edit_ppl = zip_star edit_ppl0,
               data_index = [0..<length ps], vocab_to_keep = v, output_dict = Map.empty\<rparr> =
              (steps1, Inr out))"
proof (cases "(case seeds of SeedList l \<Rightarrow> l \<noteq> [] | SeedStr s \<Rightarrow> s \<noteq> [] | _ \<Rightarrow> False)")
  case True
  with assms show ?thesis
    by (cases word_pairs) (auto simp: generate_def Let_def split: if_splits)
next
  case False
  define ps where "ps = (case word_pairs of PairList ps \<Rightarrow> ps | SinglePair p \<Rightarrow> [p] | _ \<Rightarrow> [])"
  from assms False obtain l where l: "mapE (pair_to_seed b n_blank n_blank_b n_blank_e) ps = Inr l"
    by (cases word_pairs) (auto simp: generate_def Let_def ps_def split: if_splits sum.splits)
  from assms False l obtain steps0 r where
    m: "replace_mask b ps topk l [l] [] [] = Some (steps0, r)"
    by (cases word_pairs)
       (auto simp: generate_def Let_def ps_def split: if_splits option.splits)
  from assms False l m obtain l' edit0 edit_ppl0 where r: "r = Inr (l', edit0, edit_ppl0)"
    by (cases word_pairs; cases r)
       (auto simp: generate_def Let_def ps_def split: if_splits)
  from assms False l m r obtain steps1 where
    "iterative_revision b (map (str_join ''||'') ps) topk n_revision
       \<lparr>seed_sentences = l', edit = zip_star edit0, edit_ppl = zip_star edit_ppl0,
        data_index = [0..<length ps],
        vocab_to_keep = (if vocab = None then Some ps else vocab),
        output_dict = Map.empty\<rparr> = (steps1, Inr out)"
    by (cases word_pairs)
       (auto simp: generate_def Let_def ps_def split: if_splits prod.splits)
  with m r show ?thesis by blast
qed

text \<open>
  Claim C8. In every entry of the map that \<^verbatim>\<open>generate\<close> returns, the score history is
  one shorter than the edit history (whose first snapshot, the seed, has no score). And
  a round keeps the relation: when it holds of the histories of the active candidates
  and of the entries written so far, it holds of both after \<open>revise\<close>.
\<close>

theorem generate_output_histories:
  "(generate b word_pairs seeds vocab n_revision topk n_blank n_blank_b n_blank_e =
      Some (steps, Inr out) \<longrightarrow>
    (\<forall>key h p. out key = Some (h, p) \<longrightarrow> length h = length p + 1 \<and> length p = length h - 1)) \<and>
   (revise data_key st new_sentences ppl = Inr st' \<and> histories_ok st \<and>
      output_ok (output_dict st) \<longrightarrow>
    histories_ok st' \<and> output_ok (output_dict st'))"
proof -
  have 1: "generate b word_pairs seeds vocab n_revision topk n_blank n_blank_b n_blank_e =
      Some (steps, Inr out) \<longrightarrow>
    (\<forall>key h p. out key = Some (h, p) \<longrightarrow> length h = length p + 1 \<and> length p = length h - 1)"
  proof
  assume g: "generate b word_pairs seeds vocab n_revision topk n_blank n_blank_b n_blank_e =
      Some (steps, Inr out)"
  have empty: "output_ok (Map.empty :: 'b output_map)" by (simp add: output_ok_def)
  from generate_D [OF g] have "output_ok out"
  proof (elim disjE exE conjE)
    fix l v
    assume it: "iterative_revision b l topk n_revision
              \<lparr>seed_sentences = l, edit = map (\<lambda>s. [s]) l,
               edit_ppl = replicate (length l) [], data_index = [0..<length l],
               vocab_to_keep = v, output_dict = Map.empty\<rparr> = (steps, Inr out)"
    show "output_ok out"
      by (rule iterative_revision_ok [OF it]) (simp_all add: histories_ok_def output_ok_def)
  next
    fix ps l l' edit0 edit_ppl0 steps0 steps1 v
    assume m: "replace_mask b ps topk l [l] [] [] = Some (steps0, Inr (l', edit0, edit_ppl0))"
      and it: "iterative_revision b (map (str_join ''||'') ps) topk n_revision
              \<lparr>seed_sentences = l', edit = zip_star edit0, edit_ppl = zip_star edit_ppl0,
               data_index = [0..<length ps], vocab_to_keep = v, output_dict = Map.empty\<rparr> =
              (steps1, Inr out)"
    from replace_mask_lengths_aux [OF m] have len: "length edit0 = Suc (length edit_ppl0)"
      by simp
    show "output_ok out"
      by (rule iterative_revision_ok [OF it])
         (simp_all add: histories_ok_def output_ok_def zip_star_row len)
  qed
  then show "\<forall>key h p. out key = Some (h, p) \<longrightarrow>
               length h = length p + 1 \<and> length p = length h - 1"
    by (auto simp: output_ok_def)
  qed
  have 2: "revise data_key st new_sentences ppl = Inr st' \<and> histories_ok st \<and>
      output_ok (output_dict st) \<longrightarrow>
    histories_ok st' \<and> output_ok (output_dict st')"
    using revise_histories by blast
  from 1 2 show ?thesis by (rule conjI)
qed

lemma never_stable_run:
  "(case generate never_stable (PairList [[''a'', ''b'']]) SeedsNone None 0 1 1 0 0 of
      Some (steps, Inr out) \<Rightarrow>
        out ''a||b'' = Some ([''a [MASK] b'', ''a x b'', ''a x b x'', ''a x b x x''], [1 / 5, 1 / 7, 1 / 9])
    | _ \<Rightarrow> False)"
  by code_simp

lemma revise_example:
  "revise [''a||b'']
     \<lparr>seed_sentences = [''a x b''], edit = [[''a [MASK] b'', ''a x b'']], edit_ppl = [[2::real]],
      data_index = [0], vocab_to_keep = None, output_dict = Map.empty\<rparr> [''a y b''] [1] =
   Inr \<lparr>seed_sentences = [''a y b''], edit = [[''a [MASK] b'', ''a x b'', ''a y b'']],
        edit_ppl = [[2, 1]], data_index = [0], vocab_to_keep = None, output_dict = Map.empty\<rparr>"
  by (simp add: revise_def nthE_def lastE_def truthy_def dict_update_def)

theorem generate_output_histories_witness:
  "(\<exists>steps out. generate never_stable (PairList [[''a'', ''b'']]) SeedsNone None 0 1 1 0 0 =
       Some (steps, Inr out) \<and>
     out ''a||b'' = Some ([''a [MASK] b'', ''a x b'', ''a x b x'', ''a x b x x''], [1 / 5, 1 / 7, 1 / 9]) \<and>
     length [''a [MASK] b'', ''a x b'', ''a x b x'', ''a x b x x''] = length [1 / 5, 1 / 7, 1 / 9 :: real] + 1) \<and>
   histories_ok \<lparr>seed_sentences = [''a x b''], edit = [[''a [MASK] b'', ''a x b'']],
      edit_ppl = [[2::real]], data_index = [0], vocab_to_keep = None, output_dict = Map.empty\<rparr> \<and>
   output_ok (Map.empty :: real output_map) \<and>
   histories_ok \<lparr>seed_sentences = [''a y b''], edit = [[''a [MASK] b'', ''a x b'', ''a y b'']],
      edit_ppl = [[2, 1::real]], data_index = [0], vocab_to_keep = None, output_dict = Map.empty\<rparr>"
proof -
  from never_stable_run obtain steps out where
    g: "generate never_stable (PairList [[''a'', ''b'']]) SeedsNone None 0 1 1 0 0 =
       Some (steps, Inr out)"
    and o: "out ''a||b'' = Some ([''a [MASK] b'', ''a x b'', ''a x b x'', ''a x b x x''], [1 / 5, 1 / 7, 1 / 9])"
    by (auto split: option.splits prod.splits sum.splits)
  let ?st = "\<lparr>seed_sentences = [''a x b''], edit = [[''a [MASK] b'', ''a x b'']],
      edit_ppl = [[2::real]], data_index = [0], vocab_to_keep = None, output_dict = Map.empty\<rparr>"
  let ?st' = "\<lparr>seed_sentences = [''a y b''], edit = [[''a [MASK] b'', ''a x b'', ''a y b'']],
      edit_ppl = [[2, 1::real]], data_index = [0], vocab_to_keep = None, output_dict = Map.empty\<rparr>"
  have h: "histories_ok ?st" by (simp add: histories_ok_def)
  have e: "output_ok (Map.empty :: real output_map)" by (simp add: output_ok_def)
  note inst = generate_output_histories [of never_stable "PairList [[''a'', ''b'']]" SeedsNone None
      0 1 1 0 0 steps out "[''a||b'']" ?st "[''a y b'']" "[1]" ?st']
  from inst g o
  have 1: "length [''a [MASK] b'', ''a x b'', ''a x b x'', ''a x b x x''] =
          length [1 / 5, 1 / 7, 1 / 9 :: real] + 1"
    by blast
  from inst revise_example h e have 2: "histories_ok ?st'" by simp
  from g o 1 2 h e show ?thesis by blast
qed

subsection \<open>The transitions of a round\<close>

lemma filterE_Inr: "(\<And>x. x \<in> set xs \<Longrightarrow> p x = Inr (q x)) \<Longrightarrow> filterE p xs = Inr (filter q xs)"
  by (induction xs) simp_all

lemma dict_update_Nil: "dict_update d [] = d"
  by (simp add: dict_update_def)

lemma dict_update_Cons: "dict_update d ((k, v) # es) = dict_update (d(k \<mapsto> v)) es"
  by (simp add: dict_update_def)

lemma dict_update_notin: "k \<notin> fst ` set es \<Longrightarrow> dict_update d es k = d k"
proof (induction es arbitrary: d)
  case Nil
  then show ?case by (simp add: dict_update_Nil)
next
  case (Cons e es)
  obtain k' v' where e: "e = (k', v')" by (cases e)
  from Cons.prems have 1: "k \<notin> fst ` set es" and 2: "k \<noteq> k'" by (auto simp: e)
  have "dict_update d (e # es) k = dict_update (d(k' \<mapsto> v')) es k"
    by (simp only: e dict_update_Cons)
  also have "\<dots> = (d(k' \<mapsto> v')) k" by (rule Cons.IH [OF 1])
  also have "\<dots> = d k" using 2 by simp
  finally show ?case .
qed

lemma dict_update_in:
  "distinct (map fst es) \<Longrightarrow> (k, v) \<in> set es \<Longrightarrow> dict_update d es k = Some v"
proof (induction es arbitrary: d)
  case Nil
  then show ?case by simp
next
  case (Cons e es)
  obtain k' v' where e: "e = (k', v')" by (cases e)
  have u: "dict_update d (e # es) k = dict_update (d(k' \<mapsto> v')) es k"
    by (simp only: e dict_update_Cons)
  show ?case
  proof (cases "(k, v) \<in> set es")
    case True
    from Cons.prems(1) have "distinct (map fst es)" by simp
    from Cons.IH [OF this True] u show ?thesis by simp
  next
    case False
    with Cons.prems have kv: "k' = k" "v' = v" by (auto simp: e)
    from Cons.prems have "k \<notin> fst ` set es" by (auto simp: e kv)
    from dict_update_notin [OF this, of "d(k \<mapsto> v)"] u show ?thesis
      by (simp add: kv)
  qed
qed

lemma py_index_Inr_D: "py_index xs v = Inr i \<Longrightarrow> i < length xs \<and> xs ! i = v"
proof (induction xs arbitrary: i)
  case Nil
  then show ?case by simp
next
  case (Cons x xs)
  show ?case
  proof (cases "x = v")
    case True
    with Cons.prems show ?thesis by simp
  next
    case False
    with Cons.prems obtain j where j: "py_index xs v = Inr j" "i = Suc j"
      by (auto split: sum.splits)
    from Cons.IH [OF j(1)] j(2) show ?thesis by simp
  qed
qed

lemma rerank_perplexity:
  assumes "rerank sent (map f sent) = Inr (best, m)"
  shows "m = f best"
proof -
  from assms obtain m' i where m: "py_min (map f sent) = Inr m'"
    and i: "py_index (map f sent) m' = Inr i" and n: "nthE sent i = Inr best" and mm: "m = m'"
    by (auto simp: rerank_def split: sum.splits)
  from py_index_Inr_D [OF i] have "i < length sent" "map f sent ! i = m'" by auto
  moreover from n have "best = sent ! i" by (auto simp: nthE_def split: if_splits)
  ultimately show ?thesis using mm by simp
qed

lemma get_perplexity_Inr_D:
  assumes "get_perplexity b sentences = Inr ppls"
  shows "ppls = map (perplexity b) sentences"
proof (rule nth_equalityI)
  from mapE_Inr_D [OF assms [unfolded get_perplexity_def]]
  have l: "length ppls = length sentences"
    and e: "\<forall>i<length sentences.
              (if scored_tokens b (sentences ! i) = 0 then Inl ZeroDivisionError
               else Inr (perplexity b (sentences ! i))) = Inr (ppls ! i)"
    by blast+
  show "length ppls = length (map (perplexity b) sentences)" using l by simp
  fix i assume "i < length ppls"
  with l e show "ppls ! i = map (perplexity b) sentences ! i"
    by (auto split: if_splits)
qed

lemma replace_single_token_D:
  assumes "replace_single_token b seeds vocab topk = Inr (new_sentences, ppl)"
  shows "length new_sentences = length seeds" and "length ppl = length seeds"
    and "\<forall>x<length seeds. ppl ! x = perplexity b (new_sentences ! x)"
    and "truthy vocab \<longrightarrow> length (the vocab) = length seeds"
proof -
  from assms have v: "truthy vocab \<longrightarrow> length (the vocab) = length seeds"
    by (auto simp: replace_single_token_def split: if_splits)
  from assms obtain gf ppls best where
    gf: "mapE (greedy_filling_at b seeds vocab topk) [0..<length seeds] = Inr gf"
    and gp: "get_perplexity b (concat gf) = Inr ppls"
    and best: "mapE (\<lambda>(sent, ppl). rerank sent ppl)
                 (zip gf (regroup ppls (get_partition gf))) = Inr best"
    and res: "new_sentences = map fst best" "ppl = map snd best"
    by (auto simp: replace_single_token_def Let_def split: if_splits sum.splits)
  have rg: "regroup ppls (get_partition gf) = map (map (perplexity b)) gf"
    unfolding get_perplexity_Inr_D [OF gp] by (rule regroup_concat)
  from mapE_Inr_D [OF gf] have lg: "length gf = length seeds" by simp
  from mapE_Inr_D [OF best] have lb: "length best = length gf"
    and each: "\<forall>i<length gf. rerank (gf ! i) (map (perplexity b) (gf ! i)) = Inr (best ! i)"
    by (auto simp: rg)
  show "length new_sentences = length seeds" "length ppl = length seeds"
    using lb lg res by simp_all
  show "\<forall>x<length seeds. ppl ! x = perplexity b (new_sentences ! x)"
  proof (intro allI impI)
    fix x assume x: "x < length seeds"
    with each lg have "rerank (gf ! x) (map (perplexity b) (gf ! x)) = Inr (fst (best ! x), snd (best ! x))"
      by simp
    from rerank_perplexity [OF this] show "ppl ! x = perplexity b (new_sentences ! x)"
      using x lb lg res by simp
  qed
  show "truthy vocab \<longrightarrow> length (the vocab) = length seeds" by (rule v)
qed

lemma entries_keys:
  assumes "mapE (entry_at data_key st) ns = Inr entries"
  shows "fst ` set entries \<subseteq> active_keys data_key st"
proof
  fix k assume "k \<in> fst ` set entries"
  then obtain i where i: "i < length entries" "fst (entries ! i) = k"
    by (auto simp: in_set_conv_nth)
  obtain h p where e: "entries ! i = (k, (h, p))" using i(2) by (cases "entries ! i") auto
  from mapE_Inr_D [OF assms] i(1) e have "entry_at data_key st (ns ! i) = Inr (k, (h, p))"
    by auto
  from entry_at_D [OF this] show "k \<in> active_keys data_key st"
    by (auto simp: active_keys_def)
qed

lemma revise_frame:
  assumes "revise data_key st new_sentences ppl = Inr st1"
  shows "set (data_index st1) \<subseteq> set (data_index st)"
    and "k \<notin> active_keys data_key st \<Longrightarrow> output_dict st1 k = output_dict st k"
proof -
  from assms obtain index_fixed entries index_unfixed where r:
    "mapE (entry_at data_key st) index_fixed = Inr entries"
    "mapE (nthE (data_index st)) index_unfixed = Inr (data_index st1)"
    "output_dict st1 = dict_update (output_dict st) entries"
    by (rule revise_D)
  show "set (data_index st1) \<subseteq> set (data_index st)"
  proof
    fix d assume "d \<in> set (data_index st1)"
    then obtain i where i: "i < length (data_index st1)" "data_index st1 ! i = d"
      by (auto simp: in_set_conv_nth)
    from mapE_Inr_D [OF r(2)] i have "nthE (data_index st) (index_unfixed ! i) = Inr d"
      by auto
    then show "d \<in> set (data_index st)"
      by (auto simp: nthE_def split: if_splits)
  qed
  show "output_dict st1 k = output_dict st k" if "k \<notin> active_keys data_key st"
  proof -
    from entries_keys [OF r(1)] that have "k \<notin> fst ` set entries" by auto
    then show ?thesis unfolding r(3) by (rule dict_update_notin)
  qed
qed

lemma active_keys_mono:
  "set (data_index st1) \<subseteq> set (data_index st) \<Longrightarrow>
     active_keys data_key st1 \<subseteq> active_keys data_key st"
  by (auto simp: active_keys_def)

lemma revision_loop_frame:
  "revision_loop b data_key topk n_revision i st = (steps, Inr st') \<Longrightarrow>
     set (data_index st') \<subseteq> set (data_index st) \<and>
     (\<forall>k. k \<notin> active_keys data_key st \<longrightarrow> output_dict st' k = output_dict st k)"
proof (induction b data_key topk n_revision i st arbitrary: steps rule: revision_loop.induct)
  case (1 b data_key topk n_revision i st)
  from revision_loop_Inr_D [OF "1.prems"(1)] obtain new_sentences ppl st1 where
    rst: "replace_single_token b (seed_sentences st) (vocab_to_keep st) topk =
            Inr (new_sentences, ppl)"
    and rev: "revise data_key st new_sentences ppl = Inr st1"
    by blast
  note unfold = revision_loop_unfold [OF rst rev, of n_revision i]
  note f1 = revise_frame [OF rev]
  show ?case
  proof (cases "length (seed_sentences st1) = 0 \<or> i > n_revision")
    case True
    with "1.prems"(1) unfold have "st' = st1" by simp
    with f1 show ?thesis by blast
  next
    case False
    then have c: "length (seed_sentences st1) \<noteq> 0" "\<not> n_revision < i" by auto
    from "1.prems"(1) unfold False
    have "revision_loop b data_key topk n_revision (i + 1) st1 =
            (fst (revision_loop b data_key topk n_revision (i + 1) st1), Inr st')"
      by simp
    from "1.IH" [OF rst refl rev c this]
    have 2: "set (data_index st') \<subseteq> set (data_index st1)"
      "\<forall>k. k \<notin> active_keys data_key st1 \<longrightarrow> output_dict st' k = output_dict st1 k"
      by auto
    from active_keys_mono [OF f1(1)] have "active_keys data_key st1 \<subseteq> active_keys data_key st" .
    with f1 2 show ?thesis by (metis subsetD subset_trans)
  qed
qed

lemma finish_frame:
  assumes "finish data_key st = Inr out" and "k \<notin> active_keys data_key st"
  shows "out k = output_dict st k"
proof -
  from assms(1) obtain entries where
    e: "mapE (entry_at data_key st) [0..<length (data_index st)] = Inr entries"
    and o: "out = dict_update (output_dict st) entries"
    by (auto simp: finish_def split: sum.splits)
  from entries_keys [OF e] assms(2) have "k \<notin> fst ` set entries" by auto
  then show ?thesis unfolding o by (rule dict_update_notin)
qed

lemma revise_ready:
  fixes st :: "'s::linorder rev_state"
  assumes ready: "round_ready b data_key st"
    and ln: "length new_sentences = length (seed_sentences st)"
    and lp: "length ppl = length (seed_sentences st)"
    and lv: "truthy (vocab_to_keep st) \<longrightarrow> length (the (vocab_to_keep st)) = length (seed_sentences st)"
  shows "revise data_key st new_sentences ppl =
    Inr \<lparr>seed_sentences = map (\<lambda>x. new_sentences ! x) (index_unfixed_of st new_sentences ppl),
         edit = map (\<lambda>x. edit st ! x @ [new_sentences ! x]) (index_unfixed_of st new_sentences ppl),
         edit_ppl = map (\<lambda>x. edit_ppl st ! x @ [ppl ! x]) (index_unfixed_of st new_sentences ppl),
         data_index = map (\<lambda>x. data_index st ! x) (index_unfixed_of st new_sentences ppl),
         vocab_to_keep = (if truthy (vocab_to_keep st)
            then Some (map (\<lambda>x. the (vocab_to_keep st) ! x) (index_unfixed_of st new_sentences ppl))
            else vocab_to_keep st),
         output_dict = dict_update (output_dict st)
            (map (\<lambda>n. (data_key ! (data_index st ! n), (edit st ! n, edit_ppl st ! n)))
               (index_fixed_of st new_sentences))\<rparr>"
proof -
  let ?n = "length new_sentences"
  let ?fx = "index_fixed_of st new_sentences"
  let ?iu = "index_unfixed_of st new_sentences ppl"
  from ready have len: "length (edit st) = ?n" "length (edit_ppl st) = ?n"
    "length (data_index st) = ?n"
    and each: "\<And>x. x < ?n \<Longrightarrow> edit st ! x \<noteq> [] \<and> edit_ppl st ! x \<noteq> [] \<and>
        data_index st ! x < length data_key"
    by (simp_all add: round_ready_def ln)
  have fx_sub: "\<And>x. x \<in> set ?fx \<Longrightarrow> x < ?n" by (simp add: index_fixed_of_def)
  have iu_sub: "\<And>x. x \<in> set ?iu \<Longrightarrow> x < ?n" by (simp add: index_unfixed_of_def)
  have 1: "filterE (\<lambda>x. case nthE (edit st) x of
                           Inl e \<Rightarrow> Inl e
                         | Inr h \<Rightarrow> (case lastE h of
                                      Inl e \<Rightarrow> Inl e
                                    | Inr l \<Rightarrow> Inr (new_sentences ! x = l))) [0..<?n] = Inr ?fx"
    unfolding index_fixed_of_def
    by (rule filterE_Inr) (use len each in \<open>simp add: nthE_def lastE_def\<close>)
  have 2: "mapE (entry_at data_key st) ?fx =
        Inr (map (\<lambda>n. (data_key ! (data_index st ! n), (edit st ! n, edit_ppl st ! n))) ?fx)"
    by (rule mapE_Inr) (use len each fx_sub in \<open>simp add: entry_at_def nthE_def key_at_def\<close>)
  have 3: "filterE (\<lambda>x. case nthE ppl x of
                           Inl e \<Rightarrow> Inl e
                         | Inr p \<Rightarrow> (case nthE (edit_ppl st) x of
                                      Inl e \<Rightarrow> Inl e
                                    | Inr h \<Rightarrow> (case lastE h of
                                                 Inl e \<Rightarrow> Inl e
                                               | Inr l \<Rightarrow> Inr (p < l)))) [0..<?n] = Inr ?iu"
    unfolding index_unfixed_of_def
    by (rule filterE_Inr) (use len each lp ln in \<open>simp add: nthE_def lastE_def\<close>)
  have 4: "mapE (nthE (data_index st)) ?iu = Inr (map (\<lambda>x. data_index st ! x) ?iu)"
    by (rule mapE_Inr) (use len iu_sub in \<open>simp add: nthE_def\<close>)
  have 5: "truthy (vocab_to_keep st) \<Longrightarrow>
        mapE (nthE (the (vocab_to_keep st))) ?iu = Inr (map (\<lambda>x. the (vocab_to_keep st) ! x) ?iu)"
    by (rule mapE_Inr) (use lv ln iu_sub in \<open>simp add: nthE_def\<close>)
  show ?thesis
  proof (cases "truthy (vocab_to_keep st)")
    case True
    with 5 show ?thesis by (simp add: revise_def Let_def 1 2 3 4)
  next
    case False
    then show ?thesis by (simp add: revise_def Let_def 1 2 3 4)
  qed
qed

lemma key_inj:
  assumes "round_ready b data_key st" and "y < length (seed_sentences st)"
    and "z < length (seed_sentences st)"
    and "candidate_key data_key st y = candidate_key data_key st z"
  shows "y = z"
proof -
  from assms(1) have d: "distinct (map (\<lambda>k. data_key ! k) (data_index st))"
    and l: "length (data_index st) = length (seed_sentences st)"
    by (simp_all add: round_ready_def)
  from assms(2,3) l have ly: "y < length (map (\<lambda>k. data_key ! k) (data_index st))"
    and lz: "z < length (map (\<lambda>k. data_key ! k) (data_index st))" by simp_all
  from assms(2,3,4) l
  have e: "map (\<lambda>k. data_key ! k) (data_index st) ! y = map (\<lambda>k. data_key ! k) (data_index st) ! z"
    by (simp add: candidate_key_def)
  from nth_eq_iff_index_eq [OF d ly lz] e show ?thesis by blast
qed

lemma revise_ready_facts:
  fixes st :: "'s::linorder rev_state"
  assumes ready: "round_ready b data_key st"
    and rst: "replace_single_token b (seed_sentences st) (vocab_to_keep st) topk =
                Inr (new_sentences, ppl)"
    and x: "x < length (seed_sentences st)"
  shows "\<exists>st'. revise data_key st new_sentences ppl = Inr st' \<and>
      seed_sentences st' = map (\<lambda>x. new_sentences ! x) (index_unfixed_of st new_sentences ppl) \<and>
      edit st' = map (\<lambda>x. edit st ! x @ [new_sentences ! x]) (index_unfixed_of st new_sentences ppl) \<and>
      edit_ppl st' = map (\<lambda>x. edit_ppl st ! x @ [ppl ! x]) (index_unfixed_of st new_sentences ppl) \<and>
      data_index st' = map (\<lambda>x. data_index st ! x) (index_unfixed_of st new_sentences ppl) \<and>
      (candidate_key data_key st x \<in> active_keys data_key st' \<longleftrightarrow>
         ppl ! x < last (edit_ppl st ! x)) \<and>
      output_dict st' (candidate_key data_key st x) =
        (if new_sentences ! x = last (edit st ! x) then Some (edit st ! x, edit_ppl st ! x)
         else None)"
proof -
  let ?n = "length (seed_sentences st)"
  let ?fx = "index_fixed_of st new_sentences"
  let ?iu = "index_unfixed_of st new_sentences ppl"
  let ?key = "candidate_key data_key st"
  let ?entries = "map (\<lambda>n. (data_key ! (data_index st ! n), (edit st ! n, edit_ppl st ! n))) ?fx"
  note d = replace_single_token_D [OF rst]
  from revise_ready [OF ready d(1) d(2) d(4)] obtain st' where
    r: "revise data_key st new_sentences ppl = Inr st'"
    and s: "seed_sentences st' = map (\<lambda>x. new_sentences ! x) ?iu"
      "edit st' = map (\<lambda>x. edit st ! x @ [new_sentences ! x]) ?iu"
      "edit_ppl st' = map (\<lambda>x. edit_ppl st ! x @ [ppl ! x]) ?iu"
      "data_index st' = map (\<lambda>x. data_index st ! x) ?iu"
      "output_dict st' = dict_update (output_dict st) ?entries"
    by simp
  have iu_sub: "\<And>y. y \<in> set ?iu \<Longrightarrow> y < ?n" by (simp add: index_unfixed_of_def d(1))
  have fx_sub: "\<And>y. y \<in> set ?fx \<Longrightarrow> y < ?n" by (simp add: index_fixed_of_def d(1))
  have x_iu: "x \<in> set ?iu \<longleftrightarrow> ppl ! x < last (edit_ppl st ! x)"
    using x by (simp add: index_unfixed_of_def d(1))
  have x_fx: "x \<in> set ?fx \<longleftrightarrow> new_sentences ! x = last (edit st ! x)"
    using x by (simp add: index_fixed_of_def d(1))
  have act: "?key x \<in> active_keys data_key st' \<longleftrightarrow> x \<in> set ?iu"
  proof
    assume "?key x \<in> active_keys data_key st'"
    then obtain y where y: "y \<in> set ?iu" "?key x = ?key y"
      by (auto simp: active_keys_def s(4) candidate_key_def)
    from key_inj [OF ready x iu_sub [OF y(1)] y(2)] y(1) show "x \<in> set ?iu" by simp
  next
    assume "x \<in> set ?iu"
    then show "?key x \<in> active_keys data_key st'"
      by (auto simp: active_keys_def s(4) candidate_key_def)
  qed
  have dist: "distinct (map fst ?entries)"
  proof -
    have "distinct ?fx" by (simp add: index_fixed_of_def)
    moreover have "inj_on ?key (set ?fx)"
      by (rule inj_onI) (use key_inj [OF ready] fx_sub in blast)
    ultimately have dk: "distinct (map ?key ?fx)" by (simp add: distinct_map)
    have eq: "map fst ?entries = map ?key ?fx"
      by (simp add: candidate_key_def comp_def)
    from dk show ?thesis by (simp only: eq)
  qed
  have out: "output_dict st' (?key x) =
        (if new_sentences ! x = last (edit st ! x) then Some (edit st ! x, edit_ppl st ! x)
         else None)"
  proof (cases "new_sentences ! x = last (edit st ! x)")
    case True
    then have "x \<in> set ?fx" using x_fx by simp
    then have "(?key x, (edit st ! x, edit_ppl st ! x)) \<in> set ?entries"
      by (auto simp: candidate_key_def)
    from dict_update_in [OF dist this] True show ?thesis by (simp add: s(5))
  next
    case False
    then have nx: "x \<notin> set ?fx" using x_fx by simp
    have "?key x \<notin> fst ` set ?entries"
    proof
      assume "?key x \<in> fst ` set ?entries"
      then obtain y where y: "y \<in> set ?fx" "?key x = ?key y"
        by (auto simp: candidate_key_def)
      from key_inj [OF ready x fx_sub [OF y(1)] y(2)] y(1) nx show False by simp
    qed
    from dict_update_notin [OF this] have "output_dict st' (?key x) = output_dict st (?key x)"
      by (simp add: s(5))
    moreover from ready x have "output_dict st (?key x) = None"
      by (simp add: round_ready_def candidate_key_def)
    ultimately show ?thesis using False by simp
  qed
  from r s(1-4) act x_iu out show ?thesis by blast
qed

lemma not_fixed_and_improved:
  fixes st :: "'s::linorder rev_state"
  assumes ready: "round_ready b data_key st"
    and rst: "replace_single_token b (seed_sentences st) (vocab_to_keep st) topk =
                Inr (new_sentences, ppl)"
    and x: "x < length (seed_sentences st)"
  shows "\<not> (new_sentences ! x = last (edit st ! x) \<and> ppl ! x < last (edit_ppl st ! x))"
proof
  assume a: "new_sentences ! x = last (edit st ! x) \<and> ppl ! x < last (edit_ppl st ! x)"
  from replace_single_token_D(3) [OF rst] x have "ppl ! x = perplexity b (new_sentences ! x)"
    by simp
  moreover from ready x have "last (edit_ppl st ! x) = perplexity b (last (edit st ! x))"
    by (simp add: round_ready_def)
  ultimately show False using a by simp
qed

lemma revise_ready_preserved:
  fixes st :: "'s::linorder rev_state"
  assumes ready: "round_ready b data_key st"
    and rst: "replace_single_token b (seed_sentences st) (vocab_to_keep st) topk =
                Inr (new_sentences, ppl)"
    and rev: "revise data_key st new_sentences ppl = Inr st'"
  shows "round_ready b data_key st'"
proof -
  let ?n = "length (seed_sentences st)"
  let ?iu = "index_unfixed_of st new_sentences ppl"
  let ?key = "candidate_key data_key st"
  note d = replace_single_token_D [OF rst]
  from revise_ready [OF ready d(1) d(2) d(4)] rev have
    s: "seed_sentences st' = map (\<lambda>x. new_sentences ! x) ?iu"
      "edit st' = map (\<lambda>x. edit st ! x @ [new_sentences ! x]) ?iu"
      "edit_ppl st' = map (\<lambda>x. edit_ppl st ! x @ [ppl ! x]) ?iu"
      "data_index st' = map (\<lambda>x. data_index st ! x) ?iu"
    by auto
  have iu_sub: "\<And>y. y \<in> set ?iu \<Longrightarrow> y < ?n" by (simp add: index_unfixed_of_def d(1))
  have iu_imp: "\<And>y. y \<in> set ?iu \<Longrightarrow> ppl ! y < last (edit_ppl st ! y)"
    by (simp add: index_unfixed_of_def)
  have each: "edit st' ! y \<noteq> [] \<and> edit_ppl st' ! y \<noteq> [] \<and>
        last (edit_ppl st' ! y) = perplexity b (last (edit st' ! y)) \<and>
        data_index st' ! y < length data_key" if "y < length (seed_sentences st')" for y
  proof -
    from that have y: "y < length ?iu" by (simp add: s(1))
    then have x: "?iu ! y < ?n" using iu_sub by simp
    from d(3) x have "ppl ! (?iu ! y) = perplexity b (new_sentences ! (?iu ! y))" by simp
    moreover from ready x have "data_index st ! (?iu ! y) < length data_key"
      by (simp add: round_ready_def)
    ultimately show ?thesis using y by (simp add: s)
  qed
  have dist: "distinct (map (\<lambda>k. data_key ! k) (data_index st'))"
  proof -
    have "distinct ?iu" by (simp add: index_unfixed_of_def)
    moreover have "inj_on ?key (set ?iu)"
      by (rule inj_onI) (use key_inj [OF ready] iu_sub in blast)
    ultimately have dk: "distinct (map ?key ?iu)" by (simp add: distinct_map)
    have eq: "map (\<lambda>k. data_key ! k) (data_index st') = map ?key ?iu"
      by (simp add: s(4) candidate_key_def comp_def)
    from dk show ?thesis by (simp only: eq)
  qed
  have none: "\<forall>k\<in>set (data_index st'). output_dict st' (data_key ! k) = None"
  proof
    fix k assume "k \<in> set (data_index st')"
    then obtain y where y: "y \<in> set ?iu" "k = data_index st ! y" by (auto simp: s(4))
    from revise_ready_facts [OF ready rst iu_sub [OF y(1)]] rev
    have "output_dict st' (?key y) =
            (if new_sentences ! y = last (edit st ! y) then Some (edit st ! y, edit_ppl st ! y)
             else None)" by auto
    moreover from not_fixed_and_improved [OF ready rst iu_sub [OF y(1)]] iu_imp [OF y(1)]
    have "new_sentences ! y \<noteq> last (edit st ! y)" by blast
    ultimately show "output_dict st' (data_key ! k) = None"
      by (simp add: y(2) candidate_key_def)
  qed
  show ?thesis
    unfolding round_ready_def using each dist none by (simp add: s)
qed

lemma run_ends_with_frame:
  assumes "run_ends_with b data_key topk n_revision i st out"
    and "k \<notin> active_keys data_key st"
  shows "out k = output_dict st k"
  using assms(1) unfolding run_ends_with_def
proof (elim disjE exE conjE)
  assume "finish data_key st = Inr out"
  from finish_frame [OF this assms(2)] show ?thesis .
next
  fix steps st'
  assume l: "revision_loop b data_key topk n_revision i st = (steps, Inr st')"
    and f: "finish data_key st' = Inr out"
  from revision_loop_frame [OF l] have sub: "set (data_index st') \<subseteq> set (data_index st)"
    and same: "output_dict st' k = output_dict st k" using assms(2) by auto
  from active_keys_mono [OF sub] assms(2) have "k \<notin> active_keys data_key st'" by auto
  from finish_frame [OF f this] same show ?thesis by simp
qed

text \<open>
  Take a round of the revision loop on a state that is \<open>round_ready\<close>, in
  which \<^verbatim>\<open>replace_single_token\<close> returns the best sentences \<open>new_sentences\<close> with scores
  \<open>ppl\<close>. The round succeeds and leaves a state that is \<open>round_ready\<close> again, and the
  candidate at any position \<open>x\<close> takes exactly one of three transitions. If its best
  sentence equals its last snapshot, its histories are written under its key to
  \<^verbatim>\<open>output_dict\<close> as they stand, it is no longer active, and the entry is still there in the
  map the run returns. Otherwise, if its best score is strictly lower than its last
  score, it stays active with the sentence and the score appended to its histories, and
  nothing is written for it. Otherwise it is no longer active, nothing is written for it,
  and its key is not in the map the run returns.
\<close>

lemma round_transitions:
  fixes st :: "'s::linorder rev_state" and b :: "('l::linorder, 's) backend"
  assumes "round_ready b data_key st"
    and "replace_single_token b (seed_sentences st) (vocab_to_keep st) topk =
           Inr (new_sentences, ppl)"
    and "x < length (seed_sentences st)"
  shows "\<exists>st'. revise data_key st new_sentences ppl = Inr st' \<and> round_ready b data_key st' \<and>
     (if new_sentences ! x = last (edit st ! x) then
        output_dict st' (candidate_key data_key st x) = Some (edit st ! x, edit_ppl st ! x) \<and>
        candidate_key data_key st x \<notin> active_keys data_key st' \<and>
        (\<forall>out. run_ends_with b data_key topk n_revision i st' out \<longrightarrow>
           out (candidate_key data_key st x) = Some (edit st ! x, edit_ppl st ! x))
      else if ppl ! x < last (edit_ppl st ! x) then
        (\<exists>y<length (seed_sentences st').
           data_index st' ! y = data_index st ! x \<and>
           seed_sentences st' ! y = new_sentences ! x \<and>
           edit st' ! y = edit st ! x @ [new_sentences ! x] \<and>
           edit_ppl st' ! y = edit_ppl st ! x @ [ppl ! x]) \<and>
        candidate_key data_key st x \<in> active_keys data_key st' \<and>
        output_dict st' (candidate_key data_key st x) = None
      else
        candidate_key data_key st x \<notin> active_keys data_key st' \<and>
        output_dict st' (candidate_key data_key st x) = None \<and>
        (\<forall>out. run_ends_with b data_key topk n_revision i st' out \<longrightarrow>
           out (candidate_key data_key st x) = None))"
proof -
  let ?iu = "index_unfixed_of st new_sentences ppl"
  let ?k = "candidate_key data_key st x"
  from revise_ready_facts [OF assms] obtain st' where
    r: "revise data_key st new_sentences ppl = Inr st'"
    and s: "seed_sentences st' = map (\<lambda>x. new_sentences ! x) ?iu"
      "edit st' = map (\<lambda>x. edit st ! x @ [new_sentences ! x]) ?iu"
      "edit_ppl st' = map (\<lambda>x. edit_ppl st ! x @ [ppl ! x]) ?iu"
      "data_index st' = map (\<lambda>x. data_index st ! x) ?iu"
    and act: "?k \<in> active_keys data_key st' \<longleftrightarrow> ppl ! x < last (edit_ppl st ! x)"
    and out: "output_dict st' ?k =
        (if new_sentences ! x = last (edit st ! x) then Some (edit st ! x, edit_ppl st ! x)
         else None)"
    by blast
  have ready': "round_ready b data_key st'"
    using assms(1,2) r by (rule revise_ready_preserved)
  note excl = not_fixed_and_improved [OF assms]
  have frame: "\<And>out. ?k \<notin> active_keys data_key st' \<Longrightarrow>
      run_ends_with b data_key topk n_revision i st' out \<Longrightarrow> out ?k = output_dict st' ?k"
    by (rule run_ends_with_frame)
  have improved: "\<exists>y<length (seed_sentences st').
           data_index st' ! y = data_index st ! x \<and>
           seed_sentences st' ! y = new_sentences ! x \<and>
           edit st' ! y = edit st ! x @ [new_sentences ! x] \<and>
           edit_ppl st' ! y = edit_ppl st ! x @ [ppl ! x]"
    if "ppl ! x < last (edit_ppl st ! x)"
  proof -
    from that assms(3) replace_single_token_D(1) [OF assms(2)] have "x \<in> set ?iu"
      by (simp add: index_unfixed_of_def)
    then obtain y where "y < length ?iu" "?iu ! y = x" by (auto simp: in_set_conv_nth)
    then show ?thesis by (intro exI [of _ y]) (simp add: s)
  qed
  show ?thesis
  proof (cases "new_sentences ! x = last (edit st ! x)")
    case True
    with excl act have na: "?k \<notin> active_keys data_key st'" by blast
    with True out frame r ready' show ?thesis by (intro exI [of _ st']) simp
  next
    case False
    show ?thesis
    proof (cases "ppl ! x < last (edit_ppl st ! x)")
      case True
      with False improved [OF True] act out r ready' show ?thesis
        by (intro exI [of _ st']) simp
    next
      case nimp: False
      with act have na: "?k \<notin> active_keys data_key st'" by blast
      with False nimp out frame r ready' show ?thesis by (intro exI [of _ st']) simp
    qed
  qed
qed

lemma three_way_round:
  "replace_single_token three_way (seed_sentences three_candidates)
     (vocab_to_keep three_candidates) 1 = Inr ([''a x b'', ''c y d'', ''e y f''], [2, 1, 3])"
  by code_simp

lemma three_candidates_ready:
  "round_ready three_way [''a||b'', ''c||d'', ''e||f''] three_candidates"
  unfolding round_ready_def three_candidates_def three_way_def
  by (simp add: All_less_Suc numeral_3_eq_3)

lemma round_transitions_example:
  "round_ready three_way [''a||b'', ''c||d'', ''e||f''] three_candidates \<and>
   replace_single_token three_way (seed_sentences three_candidates)
     (vocab_to_keep three_candidates) 1 = Inr ([''a x b'', ''c y d'', ''e y f''], [2, 1, 3]) \<and>
   (\<exists>st'. revise [''a||b'', ''c||d'', ''e||f''] three_candidates
            [''a x b'', ''c y d'', ''e y f''] [2, 1, 3] = Inr st' \<and>
      output_dict st' ''a||b'' = Some ([''a [MASK] b'', ''a x b''], [2]) \<and>
      ''a||b'' \<notin> active_keys [''a||b'', ''c||d'', ''e||f''] st') \<and>
   (\<exists>st'. revise [''a||b'', ''c||d'', ''e||f''] three_candidates
            [''a x b'', ''c y d'', ''e y f''] [2, 1, 3] = Inr st' \<and>
      ''c||d'' \<in> active_keys [''a||b'', ''c||d'', ''e||f''] st' \<and>
      output_dict st' ''c||d'' = None) \<and>
   (\<exists>st'. revise [''a||b'', ''c||d'', ''e||f''] three_candidates
            [''a x b'', ''c y d'', ''e y f''] [2, 1, 3] = Inr st' \<and>
      ''e||f'' \<notin> active_keys [''a||b'', ''c||d'', ''e||f''] st' \<and>
      output_dict st' ''e||f'' = None)"
proof -
  let ?dk = "[''a||b'', ''c||d'', ''e||f'']"
  let ?new = "[''a x b'', ''c y d'', ''e y f'']"
  let ?ppl = "[2, 1, 3 :: real]"
  note R = three_candidates_ready and T = three_way_round
  have k: "candidate_key ?dk three_candidates 0 = ''a||b''"
    "candidate_key ?dk three_candidates 1 = ''c||d''"
    "candidate_key ?dk three_candidates 2 = ''e||f''"
    by (simp_all add: candidate_key_def three_candidates_def)
  have c0: "?new ! 0 = last (edit three_candidates ! 0)"
    by (simp add: three_candidates_def)
  have c1: "?new ! 1 \<noteq> last (edit three_candidates ! 1)"
    "?ppl ! 1 < last (edit_ppl three_candidates ! 1)"
    by (simp_all add: three_candidates_def)
  have c2: "?new ! 2 \<noteq> last (edit three_candidates ! 2)"
    "\<not> ?ppl ! 2 < last (edit_ppl three_candidates ! 2)"
    by (simp_all add: three_candidates_def)
  have e0: "edit three_candidates ! 0 = [''a [MASK] b'', ''a x b'']"
    "edit_ppl three_candidates ! 0 = [2]"
    by (simp_all add: three_candidates_def)
  have x: "0 < length (seed_sentences three_candidates)"
    "1 < length (seed_sentences three_candidates)"
    "2 < length (seed_sentences three_candidates)"
    by (simp_all add: three_candidates_def)
  from round_transitions [OF R T x(1), of 0 0, unfolded if_P [OF c0], unfolded k e0]
  obtain s0 where
    r0: "revise ?dk three_candidates ?new ?ppl = Inr s0"
    and t0: "output_dict s0 ''a||b'' = Some ([''a [MASK] b'', ''a x b''], [2]) \<and>
             ''a||b'' \<notin> active_keys ?dk s0"
    by (elim exE conjE) (rule that, assumption, intro conjI)
  from round_transitions [OF R T x(2), of 0 0, unfolded if_not_P [OF c1(1)] if_P [OF c1(2)],
      unfolded k]
  obtain s1 where
    r1: "revise ?dk three_candidates ?new ?ppl = Inr s1"
    and t1: "''c||d'' \<in> active_keys ?dk s1 \<and> output_dict s1 ''c||d'' = None"
    by (elim exE conjE) (rule that, assumption, intro conjI)
  from round_transitions [OF R T x(3), of 0 0, unfolded if_not_P [OF c2(1)] if_not_P [OF c2(2)],
      unfolded k]
  obtain s2 where
    r2: "revise ?dk three_candidates ?new ?ppl = Inr s2"
    and t2: "''e||f'' \<notin> active_keys ?dk s2 \<and> output_dict s2 ''e||f'' = None"
    by (elim exE conjE) (rule that, assumption, intro conjI)
  from r0 t0 have 0: "\<exists>st'. revise ?dk three_candidates ?new ?ppl = Inr st' \<and>
      output_dict st' ''a||b'' = Some ([''a [MASK] b'', ''a x b''], [2]) \<and>
      ''a||b'' \<notin> active_keys ?dk st'" by (intro exI [of _ s0]) simp
  from r1 t1 have 1: "\<exists>st'. revise ?dk three_candidates ?new ?ppl = Inr st' \<and>
      ''c||d'' \<in> active_keys ?dk st' \<and> output_dict st' ''c||d'' = None"
    by (intro exI [of _ s1]) simp
  from r2 t2 have 2: "\<exists>st'. revise ?dk three_candidates ?new ?ppl = Inr st' \<and>
      ''e||f'' \<notin> active_keys ?dk st' \<and> output_dict st' ''e||f'' = None"
    by (intro exI [of _ s2]) simp
  show ?thesis
    by (intro conjI) (rule R, rule T, rule 0, rule 1, rule 2)
qed

subsection \<open>The state that enters the revision loop\<close>

text \<open>
  In word-pair mode, when at least one mask was filled and the joined word pairs are
  distinct, the revision loop starts in a state that is \<open>round_ready\<close>; every round
  leaves such a state again (\<open>revise_ready_preserved\<close>).
\<close>

lemma mask_invariant_step:
  assumes "mask_invariant b n seeds edit0 edit_ppl0"
    and "replace_single_token b seeds vocab topk = Inr (seeds', ppl)"
  shows "mask_invariant b n seeds' (edit0 @ [seeds']) (edit_ppl0 @ [ppl])"
proof -
  note d = replace_single_token_D [OF assms(2)]
  from assms(1) have n: "length seeds = n" by (simp add: mask_invariant_def)
  with d assms(1) show ?thesis
    by (auto simp: mask_invariant_def)
qed

lemma replace_mask_invariant:
  assumes "replace_mask b word_pairs topk seeds edit0 edit_ppl0 steps = Some y"
  shows "mask_invariant b n seeds edit0 edit_ppl0 \<longrightarrow>
       (\<forall>steps' l e p. y = (steps', Inr (l, e, p)) \<longrightarrow>
          mask_invariant b n l e p \<and> (edit_ppl0 \<noteq> [] \<longrightarrow> p \<noteq> []))"
proof (rule replace_mask.raw_induct [where P = "\<lambda>b word_pairs topk seeds edit0 edit_ppl0 steps y.
     mask_invariant b n seeds edit0 edit_ppl0 \<longrightarrow>
       (\<forall>steps' l e p. y = (steps', Inr (l, e, p)) \<longrightarrow>
          mask_invariant b n l e p \<and> (edit_ppl0 \<noteq> [] \<longrightarrow> p \<noteq> []))",
     OF _ assms], goal_cases)
  case (1 rm b word_pairs topk seeds edit0 edit_ppl0 steps y)
  note IH = 1(1) and eq = 1(2)
  show ?case
  proof (cases "list_ex (\<lambda>x. \<not> str_contains x (mask_token b)) seeds")
    case True
    with eq show ?thesis
      by (cases "list_all (\<lambda>i. \<not> str_contains i (mask_token b)) seeds") auto
  next
    case False
    show ?thesis
    proof (cases "replace_single_token b seeds (Some word_pairs) topk")
      case (Inl e)
      with False eq show ?thesis by auto
    next
      case (Inr r)
      obtain seeds' ppl where r: "r = (seeds', ppl)" by (cases r)
      from False Inr r eq have
        "rm b word_pairs topk seeds' (edit0 @ [seeds']) (edit_ppl0 @ [ppl])
           (steps @ [Replace_mask_step (1 + length edit_ppl0)]) = Some y"
        by simp
      note step = IH [OF this]
      have "mask_invariant b n seeds edit0 edit_ppl0 \<Longrightarrow>
            mask_invariant b n seeds' (edit0 @ [seeds']) (edit_ppl0 @ [ppl])"
        using Inr r by (blast intro: mask_invariant_step)
      with step show ?thesis by blast
    qed
  qed
qed

lemma min_from_const: "\<forall>y\<in>set xs. y = m \<Longrightarrow> min_from m xs = m"
  by (induction xs) simp_all

lemma zip_star_rows:
  assumes "xss \<noteq> []" and "\<forall>r\<in>set xss. length r = n"
  shows "length (zip_star xss) = n"
    and "x < n \<Longrightarrow> zip_star xss ! x = map (\<lambda>r. r ! x) xss"
proof -
  obtain xs r where c: "xss = xs # r" using assms(1) by (cases xss) auto
  with assms(2) have "min_from (length xs) (map length r) = n"
    using min_from_const [of "map length r" "length xs"] by auto
  then have z: "zip_star xss = map (\<lambda>i. map (\<lambda>ys. ys ! i) xss) [0..<n]"
    by (simp add: zip_star_def c)
  show "length (zip_star xss) = n" by (simp add: z)
  show "zip_star xss ! x = map (\<lambda>r. r ! x) xss" if "x < n"
    using that by (simp add: z)
qed

lemma revision_starts_ready:
  fixes b :: "('l::linorder, 's::linorder) backend"
  assumes m: "replace_mask b ps topk l [l] [] [] = Some (steps0, Inr (l', edit0, edit_ppl0))"
    and ne: "edit_ppl0 \<noteq> []"
    and len: "length l = length ps"
    and dist: "distinct (map (str_join ''||'') ps)"
  shows "round_ready b (map (str_join ''||'') ps)
           \<lparr>seed_sentences = l', edit = zip_star edit0, edit_ppl = zip_star edit_ppl0,
            data_index = [0..<length ps], vocab_to_keep = v, output_dict = Map.empty\<rparr>"
proof -
  let ?n = "length ps"
  have "mask_invariant b ?n l [l] []" by (simp add: mask_invariant_def len)
  with replace_mask_invariant [OF m, of ?n] have inv: "mask_invariant b ?n l' edit0 edit_ppl0"
    by blast
  then have l': "length l' = ?n" and e0: "edit0 \<noteq> []" "last edit0 = l'"
    and rows: "\<forall>r\<in>set edit0. length r = ?n" "\<forall>r\<in>set edit_ppl0. length r = ?n"
    and sc: "\<forall>x<?n. last edit_ppl0 ! x = perplexity b (l' ! x)"
    using ne by (simp_all add: mask_invariant_def)
  note ze = zip_star_rows [OF e0(1) rows(1)] and zp = zip_star_rows [OF ne rows(2)]
  have each: "zip_star edit0 ! x \<noteq> [] \<and> zip_star edit_ppl0 ! x \<noteq> [] \<and>
      last (zip_star edit_ppl0 ! x) = perplexity b (last (zip_star edit0 ! x))"
    if "x < ?n" for x
    using that e0 ne sc by (simp add: ze(2) zp(2) last_map)
  have d: "distinct (map (\<lambda>k. map (str_join ''||'') ps ! k) [0..<?n])"
  proof -
    have "map (\<lambda>k. map (str_join ''||'') ps ! k) [0..<?n] = map (str_join ''||'') ps"
      by (rule nth_equalityI) simp_all
    with dist show ?thesis by simp
  qed
  show ?thesis
    unfolding round_ready_def using each d by (simp add: l' ze(1) zp(1))
qed

subsection \<open>A first round without recorded scores\<close>

text \<open>
  Line 292 reads the last recorded score of every active candidate, so a round
  returns a state only when each of them has one.
\<close>

lemma revise_needs_scores:
  assumes "revise data_key st new_sentences ppl = Inr st'" and "x < length new_sentences"
  shows "x < length (edit_ppl st) \<and> edit_ppl st ! x \<noteq> []"
proof -
  let ?p = "\<lambda>x. case nthE ppl x of
                  Inl e \<Rightarrow> Inl e
                | Inr p \<Rightarrow> (case nthE (edit_ppl st) x of
                             Inl e \<Rightarrow> Inl e
                           | Inr h \<Rightarrow> (case lastE h of
                                        Inl e \<Rightarrow> Inl e
                                      | Inr l \<Rightarrow> Inr (p < l)))"
  from assms(1) obtain iu where "filterE ?p [0..<length new_sentences] = Inr iu"
    by (auto simp: revise_def Let_def split: sum.splits)
  from filterE_Inr_D [OF this]
  have "\<forall>x\<in>set [0..<length new_sentences]. \<exists>c. ?p x = Inr c" by blast
  moreover have "x \<in> set [0..<length new_sentences]" using assms(2) by simp
  ultimately obtain c where "?p x = Inr c" by blast
  then show ?thesis
    by (auto simp: nthE_def lastE_def split: sum.splits if_splits)
qed

lemma revision_loop_without_scores:
  assumes "x < length (seed_sentences st)"
    and "\<not> (x < length (edit_ppl st) \<and> edit_ppl st ! x \<noteq> [])"
  shows "\<exists>e. revision_loop b data_key topk n_revision i st =
              ([Revision_step (i + 1) n_revision], Inl e)"
proof (cases "replace_single_token b (seed_sentences st) (vocab_to_keep st) topk")
  case (Inl e)
  then show ?thesis by (subst revision_loop.simps) simp
next
  case (Inr r)
  obtain new_sentences ppl where r: "r = (new_sentences, ppl)" by (cases r)
  from replace_single_token_D(1) [OF Inr [unfolded r]] assms(1)
  have x: "x < length new_sentences" by simp
  show ?thesis
  proof (cases "revise data_key st new_sentences ppl")
    case (Inl e)
    with Inr r show ?thesis by (subst revision_loop.simps) simp
  next
    case (Inr st')
    from revise_needs_scores [OF Inr x] assms(2) show ?thesis by simp
  qed
qed

text \<open>
  Lines 247-248 start a run on seed sentences with an empty score history for each of
  them. Whatever the backend, the vocabulary and the other arguments are, the first
  round raises and \<^verbatim>\<open>generate\<close> returns no map.
\<close>

lemma seed_sentence_mode_raises:
  assumes "l \<noteq> []"
  shows "\<exists>e. generate b (PairList []) (SeedList l) vocab n_revision topk n_blank n_blank_b
                n_blank_e = Some ([Revision_step 1 n_revision], Inl e)"
proof -
  let ?st = "\<lparr>seed_sentences = l, edit = map (\<lambda>s. [s]) l,
              edit_ppl = replicate (length l) [], data_index = [0..<length l],
              vocab_to_keep = vocab, output_dict = Map.empty\<rparr>"
  from assms have "0 < length (seed_sentences ?st)"
    and "\<not> (0 < length (edit_ppl ?st) \<and> edit_ppl ?st ! 0 \<noteq> [])"
    by simp_all
  from revision_loop_without_scores [OF this, of b l topk n_revision 0]
  obtain e where "revision_loop b l topk n_revision 0 ?st = ([Revision_step 1 n_revision], Inl e)"
    by auto
  then have "iterative_revision b l topk n_revision ?st = ([Revision_step 1 n_revision], Inl e)"
    by (simp add: iterative_revision_def)
  with assms show ?thesis by (simp add: generate_def)
qed

lemma outcome_Inl:
  assumes "map_option (apsnd (map_sum id (\<lambda>m. ()))) g = Some (steps, Inl e)"
  shows "g = Some (steps, Inl e)"
proof -
  from assms obtain l r where g: "g = Some (l, r)" by (cases g) auto
  with assms have "l = steps" "map_sum id (\<lambda>m. ()) r = Inl e" by simp_all
  then show ?thesis using g by (cases r) simp_all
qed

text \<open>
  Claim C3 fails on the code. Where every active candidate has a recorded score, a
  round takes the three transitions of the claim (\<open>round_transitions\<close>). But the first
  round of a run has no recorded score to read when the run starts from seed sentences
  (line 248 gives each an empty score history) or from word pairs without blanks (the
  loop of lines 260-269 records nothing, and line 272 leaves \<^verbatim>\<open>edit_ppl\<close> empty). With
  the seed sentence \<open>a x b\<close>, and with the word pair \<open>a\<close>, \<open>b\<close> and no blank, the first
  round logs its step, then line 292 raises \<^verbatim>\<open>IndexError\<close>: no candidate is finalized,
  kept or dropped, and \<^verbatim>\<open>generate\<close> returns no map.
\<close>

theorem first_round_without_scores:
  "generate never_stable (PairList []) (SeedList [''a x b'']) None 1 1 0 0 0 =
     Some ([Revision_step 1 1], Inl IndexError) \<and>
   generate never_stable (PairList [[''a'', ''b'']]) SeedsNone None 1 1 0 0 0 =
     Some ([Revision_step 1 1], Inl IndexError)"
proof (rule conjI)
  have "map_option (apsnd (map_sum id (\<lambda>m. ())))
          (generate never_stable (PairList []) (SeedList [''a x b'']) None 1 1 0 0 0) =
        Some ([Revision_step 1 1], Inl IndexError)"
    by code_simp
  then show "generate never_stable (PairList []) (SeedList [''a x b'']) None 1 1 0 0 0 =
     Some ([Revision_step 1 1], Inl IndexError)"
    by (rule outcome_Inl)
  have "map_option (apsnd (map_sum id (\<lambda>m. ())))
          (generate never_stable (PairList [[''a'', ''b'']]) SeedsNone None 1 1 0 0 0) =
        Some ([Revision_step 1 1], Inl IndexError)"
    by code_simp
  then show "generate never_stable (PairList [[''a'', ''b'']]) SeedsNone None 1 1 0 0 0 =
     Some ([Revision_step 1 1], Inl IndexError)"
    by (rule outcome_Inl)
qed

end
